theory Spec2Isabelle
  imports Main "HOL-Library.AList" "HOL-Library.List_Lexorder"
begin

section \<open>Dependency extraction for GraphQL schema files\<close>

text \<open>
  A Python \<open>str\<close> is a sequence of Unicode code points, compared code point by code
  point; it is modelled as a list of naturals under the lexicographic order.
\<close>

type_synonym pystr = "nat list"

definition str :: "string \<Rightarrow> pystr" where
  "str s = map of_char s"

text \<open>
  A Python set is a list without repetition, in its iteration order: \<open>set_add\<close> is
  \<open>set.add\<close>.
\<close>

definition set_add :: "'a list \<Rightarrow> 'a \<Rightarrow> 'a list" where
  "set_add xs x = (if x \<in> set xs then xs else xs @ [x])"

subsection \<open>Regular expressions of the standard library\<close>

text \<open>
  The extractors use \<open>re.findall\<close> and \<open>re.search\<close>. A pattern is a term of type
  \<open>re\<close>; \<open>Star\<close> is the greedy \<open>*\<close>, \<open>Lazy\<close> the non-greedy \<open>*?\<close>, \<open>Opt\<close>
  the greedy \<open>?\<close>, \<open>Plus\<close> the greedy \<open>+\<close> and \<open>Grp\<close> the one capturing group
  that each pattern of the program has. \<open>ms r (s, c)\<close> lists every way to match \<open>r\<close>
  at the start of \<open>s\<close>, each as the rest of the text and the capture, in the order in
  which the backtracking matcher tries them; the match that Python reports at a position
  is the head of the list. A repetition never repeats an empty match. \<open>findall\<close> scans
  from left to right for matches that do not overlap and returns the group of each;
  \<open>search\<close> returns the group of the leftmost match.
\<close>

datatype re =
    Lit pystr
  | Cls "nat \<Rightarrow> bool"
  | Seq re re
  | Alt re re
  | Star re
  | Lazy re
  | Opt re
  | Grp re

definition Plus :: "re \<Rightarrow> re" where
  "Plus r = Seq r (Star r)"

function ms :: "re \<Rightarrow> pystr \<times> pystr option \<Rightarrow> (pystr \<times> pystr option) list" where
  "ms (Lit w) (s, c) = (if take (length w) s = w then [(drop (length w) s, c)] else [])"
| "ms (Cls p) (s, c) = (case s of [] \<Rightarrow> [] | x # xs \<Rightarrow> if p x then [(xs, c)] else [])"
| "ms (Seq r1 r2) (s, c) = concat (map (ms r2) (ms r1 (s, c)))"
| "ms (Alt r1 r2) (s, c) = ms r1 (s, c) @ ms r2 (s, c)"
| "ms (Star r) (s, c) =
     concat (map (ms (Star r)) (filter (\<lambda>st. length (fst st) < length s) (ms r (s, c)))) @ [(s, c)]"
| "ms (Lazy r) (s, c) =
     (s, c) # concat (map (ms (Lazy r)) (filter (\<lambda>st. length (fst st) < length s) (ms r (s, c))))"
| "ms (Opt r) (s, c) = ms r (s, c) @ [(s, c)]"
| "ms (Grp r) (s, c) =
     map (\<lambda>st. (fst st, Some (take (length s - length (fst st)) s))) (ms r (s, c))"
  by pat_completeness auto
termination
  by (relation "inv_image (less_than <*lex*> less_than) (\<lambda>(r, s, c). (size r, length s))") auto

definition group1 :: "pystr option \<Rightarrow> pystr" where
  "group1 c = (case c of None \<Rightarrow> [] | Some w \<Rightarrow> w)"

fun search :: "re \<Rightarrow> pystr \<Rightarrow> pystr option" where
  "search r [] = (case ms r ([], None) of [] \<Rightarrow> None | (s', c) # _ \<Rightarrow> Some (group1 c))"
| "search r (x # xs) =
     (case ms r (x # xs, None) of [] \<Rightarrow> search r xs | (s', c) # _ \<Rightarrow> Some (group1 c))"

function findall :: "re \<Rightarrow> pystr \<Rightarrow> pystr list" where
  "findall r s =
     (case ms r (s, None) of
        [] \<Rightarrow> (case s of [] \<Rightarrow> [] | x # xs \<Rightarrow> findall r xs)
      | (s', c) # _ \<Rightarrow>
          group1 c #
            (if length s' < length s then findall r s'
             else (case s of [] \<Rightarrow> [] | x # xs \<Rightarrow> findall r xs)))"
  by pat_completeness auto
termination
  by (relation "measure (\<lambda>(r, s). length s)") auto

text \<open>
  The character classes: \<open>\s\<close> on a \<open>str\<close> pattern is the Unicode white space,
  \<open>[A-Z]\<close> and \<open>[a-zA-Z0-9_]\<close> are the ASCII ranges as written.
\<close>

definition is_space :: "nat \<Rightarrow> bool" where
  "is_space c \<longleftrightarrow>
     (9 \<le> c \<and> c \<le> 13) \<or> (28 \<le> c \<and> c \<le> 32) \<or> c = 133 \<or> c = 160 \<or> c = 5760 \<or>
     (8192 \<le> c \<and> c \<le> 8202) \<or> c = 8232 \<or> c = 8233 \<or> c = 8239 \<or> c = 8287 \<or> c = 12288"

definition is_upper :: "nat \<Rightarrow> bool" where
  "is_upper c \<longleftrightarrow> 65 \<le> c \<and> c \<le> 90"

definition is_word :: "nat \<Rightarrow> bool" where
  "is_word c \<longleftrightarrow> (97 \<le> c \<and> c \<le> 122) \<or> (65 \<le> c \<and> c \<le> 90) \<or> (48 \<le> c \<and> c \<le> 57) \<or> c = 95"

subsection \<open>The extractors (lines 16 to 39)\<close>

text \<open>
  \<open>type_name\<close> is \<open>[A-Z][a-zA-Z0-9_]+\<close>. \<open>declared_resource\<close> is the part of
  \<open>get_main_resource_name\<close> that searches the content: the loop over the marker
  interfaces \<open>IDomainResource\<close> and \<open>IResource\<close>, then the first type declaration.
  Without \<open>re.DOTALL\<close> the dot of \<open>implements_re\<close> matches no newline. The fallback
  capitalises the file name up to its first dot; \<open>str.capitalize\<close> follows the Unicode
  case mapping of the interpreter and is a parameter here. The set of dependencies is a
  list without repetition.
\<close>

definition type_name :: re where
  "type_name = Seq (Cls is_upper) (Plus (Cls is_word))"

definition type_or_interface :: re where
  "type_or_interface = Alt (Lit (str ''type'')) (Lit (str ''interface''))"

definition defined_type_re :: re where
  "defined_type_re = Seq type_or_interface (Seq (Plus (Cls is_space)) (Grp type_name))"

definition get_defined_types :: "pystr \<Rightarrow> pystr list" where
  "get_defined_types content = findall defined_type_re content"

definition implements_re :: "pystr \<Rightarrow> re" where
  "implements_re interface =
     Seq (Lit (str ''type'')) (Seq (Plus (Cls is_space)) (Seq (Grp type_name)
       (Seq (Star (Cls is_space)) (Seq (Lit (str ''implements'')) (Seq (Star (Cls is_space))
         (Seq (Lazy (Cls (\<lambda>c. c \<noteq> 10))) (Lit interface)))))))"

definition first_type_re :: re where
  "first_type_re = Seq (Lit (str ''type'')) (Seq (Plus (Cls is_space)) (Grp type_name))"

fun declared_resource :: "pystr list \<Rightarrow> pystr \<Rightarrow> pystr option" where
  "declared_resource [] content = search first_type_re content"
| "declared_resource (interface # interfaces) content =
     (case search (implements_re interface) content of
        Some found \<Rightarrow> Some found
      | None \<Rightarrow> declared_resource interfaces content)"

definition get_main_resource_name :: "(pystr \<Rightarrow> pystr) \<Rightarrow> pystr \<Rightarrow> pystr \<Rightarrow> pystr" where
  "get_main_resource_name capitalize content filename =
     (case declared_resource [str ''IDomainResource'', str ''IResource''] content of
        Some found \<Rightarrow> found
      | None \<Rightarrow> capitalize (takeWhile (\<lambda>c. c \<noteq> 46) filename))"

definition type_definition_re :: re where
  "type_definition_re =
     Seq type_or_interface (Seq (Plus (Cls is_space)) (Seq (Plus (Cls is_word))
       (Seq (Star (Cls is_space))
         (Seq (Star (Seq (Lit (str ''implements'')) (Seq (Star (Cls is_space)) (Lazy (Cls (\<lambda>c. True))))))
           (Seq (Star (Cls is_space))
             (Seq (Lit [123]) (Seq (Grp (Plus (Cls (\<lambda>c. c \<noteq> 125)))) (Lit [125]))))))))"

definition field_type_re :: re where
  "field_type_re =
     Seq (Lit (str '':'')) (Seq (Star (Cls is_space)) (Seq (Opt (Lit (str ''[''))) (Grp type_name)))"

definition get_dependencies_from_content :: "pystr \<Rightarrow> pystr list" where
  "get_dependencies_from_content content =
     (let type_definitions = findall type_definition_re content
      in fold (\<lambda>type_def dependencies. fold (\<lambda>ftype deps. set_add deps ftype)
                 (findall field_type_re type_def) dependencies)
           type_definitions [])"

subsection \<open>The graph builder (lines 61 to 71 of \<open>main\<close>)\<close>

definition SCALAR_TYPES :: "pystr list" where
  "SCALAR_TYPES = map str
     [''ID'', ''String'', ''Boolean'', ''uri'', ''code'', ''markdown'', ''instant'',
      ''positiveInt'', ''dateTime'', ''Int'', ''Float'', ''date'', ''base64Binary'',
      ''canonical'', ''oid'', ''time'', ''unsignedInt'', ''url'', ''uuid'', ''xhtml'',
      ''decimal'']"

text \<open>
  A Python set is a list without repetition, in its iteration order; a dict is an
  association list in insertion order. \<open>set_add\<close> is \<open>set.add\<close>, \<open>dm_get\<close> is
  \<open>dependency_map.get(node, [])\<close> and \<open>dm_add\<close> is
  \<open>dependency_map[resource].add(dep)\<close> on a \<open>defaultdict(set)\<close>.
\<close>

definition dm_get :: "('a \<times> 'a list) list \<Rightarrow> 'a \<Rightarrow> 'a list" where
  "dm_get dm r = (case map_of dm r of None \<Rightarrow> [] | Some ds \<Rightarrow> ds)"

definition dm_add :: "('a \<times> 'a list) list \<Rightarrow> 'a \<Rightarrow> 'a \<Rightarrow> ('a \<times> 'a list) list" where
  "dm_add dm r d = AList.update r (set_add (dm_get dm r) d) dm"

definition add_dep ::
  "(pystr \<times> pystr) list \<Rightarrow> pystr \<Rightarrow> pystr \<Rightarrow> (pystr \<times> pystr list) list
     \<Rightarrow> (pystr \<times> pystr list) list" where
  "add_dep type_to_resource_map resource dep dm =
     (if dep \<in> set SCALAR_TYPES \<or> dep = resource then dm
      else if map_of type_to_resource_map dep \<noteq> Some resource then dm_add dm resource dep
      else dm)"

definition build_dependency_map ::
  "(pystr \<times> pystr list) list \<Rightarrow> (pystr \<times> pystr) list \<Rightarrow> (pystr \<times> pystr list) list" where
  "build_dependency_map file_data type_to_resource_map =
     fold (\<lambda>(resource, raw_deps) dm. fold (add_dep type_to_resource_map resource) raw_deps dm)
       file_data []"

subsection \<open>The topological sorter of the standard library\<close>

text \<open>
  \<open>main\<close> levels the graph with \<open>graphlib.TopologicalSorter\<close>. Its state is the
  dict \<open>_node2info\<close> (a node's count of unfinished predecessors, which also holds the
  marks \<open>_NODE_OUT = -1\<close> and \<open>_NODE_DONE = -2\<close>, and the list of its successors),
  the list \<open>_ready_nodes\<close> and the two counters. \<open>main\<close> constructs the sorter,
  calls \<open>prepare\<close> once and only then \<open>is_active\<close>, \<open>get_ready\<close> and \<open>done\<close> (here \<open>ts_done\<close>),
  so the checks of \<open>_ready_nodes is None\<close> never fire and are left out.
\<close>

datatype error = CycleError | ValueError | KeyError | AssertionError | RecursionError

record 'a nodeinfo =
  npredecessors :: int
  successors :: "'a list"

type_synonym 'a node2info = "('a \<times> 'a nodeinfo) list"

record 'a sorter =
  node2info :: "'a node2info"
  ready_nodes :: "'a list"
  npassedout :: nat
  nfinished :: nat

definition get_nodeinfo :: "'a node2info \<Rightarrow> 'a \<Rightarrow> 'a node2info" where
  "get_nodeinfo n2i node =
     (case map_of n2i node of
        None \<Rightarrow> n2i @ [(node, \<lparr>npredecessors = 0, successors = []\<rparr>)]
      | Some _ \<Rightarrow> n2i)"

definition add_successor :: "'a \<Rightarrow> 'a \<Rightarrow> 'a node2info \<Rightarrow> 'a node2info" where
  "add_successor node pred n2i =
     AList.map_entry pred (\<lambda>i. i\<lparr>successors := successors i @ [node]\<rparr>) (get_nodeinfo n2i pred)"

definition add :: "'a \<Rightarrow> 'a list \<Rightarrow> 'a node2info \<Rightarrow> 'a node2info" where
  "add node predecessors n2i =
     fold (add_successor node) predecessors
       (AList.map_entry node
          (\<lambda>i. i\<lparr>npredecessors := npredecessors i + int (length predecessors)\<rparr>)
          (get_nodeinfo n2i node))"

definition TopologicalSorter :: "('a \<times> 'a list) list \<Rightarrow> 'a node2info" where
  "TopologicalSorter graph = fold (\<lambda>(node, predecessors). add node predecessors) graph []"

text \<open>
  \<open>_find_cycle\<close> is a depth-first search with an explicit stack. A frame pairs a node
  of the stack with what its successor iterator has still to yield; the head of
  \<open>frames\<close> is the top of the stack, and the keys of \<open>node2stacki\<close> are the nodes of
  the stack. \<open>Some node\<close> is the head of the \<open>while True\<close> loop with that node,
  \<open>None\<close> the inner loop that backtracks to the next successor.
\<close>

datatype 'a cycle_search = Found "'a list" | NotFound "'a list" | Broken error

function find_cycle_from ::
  "'a node2info \<Rightarrow> 'a option \<Rightarrow> ('a \<times> 'a list) list \<Rightarrow> 'a list \<Rightarrow> 'a cycle_search" where
  "find_cycle_from n2i (Some node) frames seen =
     (if node \<in> set seen then
        (if node \<in> set (map fst frames)
         then Found (node # rev (takeWhile (\<lambda>x. x \<noteq> node) (map fst frames)) @ [node])
         else find_cycle_from n2i None frames seen)
      else
        (case map_of n2i node of
           None \<Rightarrow> Broken KeyError
         | Some info \<Rightarrow> find_cycle_from n2i None ((node, successors info) # frames) (node # seen)))"
| "find_cycle_from n2i None [] seen = NotFound seen"
| "find_cycle_from n2i None ((n, []) # frames) seen = find_cycle_from n2i None frames seen"
| "find_cycle_from n2i None ((n, s # ss) # frames) seen =
     find_cycle_from n2i (Some s) ((n, ss) # frames) seen"
  by pat_completeness auto
termination
proof (relation
    "inv_image (less_than <*lex*> less_than <*lex*> less_than)
       (\<lambda>(n2i, cur, frames, seen).
          (card (fst ` set n2i - set seen),
           sum_list (map (\<lambda>(n, rest). Suc (length rest)) frames),
           case cur of None \<Rightarrow> 0 | Some _ \<Rightarrow> Suc 0))", goal_cases)
  case 1
  then show ?case by (intro wf_inv_image wf_lex_prod wf_less_than)
next
  case 2
  then show ?case by simp
next
  case (3 n2i node frames seen info)
  have "node \<in> fst ` set n2i - set seen"
    using 3 by (auto dest: map_of_SomeD intro: rev_image_eqI)
  moreover have "fst ` set n2i - set (node # seen) = (fst ` set n2i - set seen) - {node}"
    by auto
  moreover have "finite (fst ` set n2i - set seen)"
    by simp
  ultimately have "card (fst ` set n2i - set (node # seen)) < card (fst ` set n2i - set seen)"
    by (metis card_Diff1_less)
  then show ?case by simp
next
  case 4
  then show ?case by simp
next
  case 5
  then show ?case by simp
qed

fun find_cycle_nodes :: "'a node2info \<Rightarrow> 'a list \<Rightarrow> 'a list \<Rightarrow> 'a cycle_search" where
  "find_cycle_nodes n2i [] seen = NotFound seen"
| "find_cycle_nodes n2i (node # nodes) seen =
     (if node \<in> set seen then find_cycle_nodes n2i nodes seen
      else (case find_cycle_from n2i (Some node) [] seen of
              NotFound seen' \<Rightarrow> find_cycle_nodes n2i nodes seen'
            | r \<Rightarrow> r))"

definition find_cycle :: "'a node2info \<Rightarrow> 'a cycle_search" where
  "find_cycle n2i = find_cycle_nodes n2i (map fst n2i) []"

definition prepare :: "'a node2info \<Rightarrow> error + 'a sorter" where
  "prepare n2i =
     (case find_cycle n2i of
        Found cycle \<Rightarrow> Inl CycleError
      | Broken e \<Rightarrow> Inl e
      | NotFound _ \<Rightarrow>
          Inr \<lparr>node2info = n2i,
               ready_nodes = map fst (filter (\<lambda>(node, i). npredecessors i = 0) n2i),
               npassedout = 0, nfinished = 0\<rparr>)"

definition is_active :: "'a sorter \<Rightarrow> bool" where
  "is_active ts \<longleftrightarrow> nfinished ts < npassedout ts \<or> ready_nodes ts \<noteq> []"

fun mark_out :: "'a list \<Rightarrow> 'a node2info \<Rightarrow> error + 'a node2info" where
  "mark_out [] n2i = Inr n2i"
| "mark_out (node # nodes) n2i =
     (case map_of n2i node of
        None \<Rightarrow> Inl KeyError
      | Some _ \<Rightarrow> mark_out nodes (AList.map_entry node (\<lambda>i. i\<lparr>npredecessors := - 1\<rparr>) n2i))"

definition get_ready :: "'a sorter \<Rightarrow> error + ('a list \<times> 'a sorter)" where
  "get_ready ts =
     (let result = ready_nodes ts in
      case mark_out result (node2info ts) of
        Inl e \<Rightarrow> Inl e
      | Inr n2i \<Rightarrow>
          Inr (result, ts\<lparr>node2info := n2i, ready_nodes := [],
                          npassedout := npassedout ts + length result\<rparr>))"

fun release :: "'a list \<Rightarrow> 'a sorter \<Rightarrow> error + 'a sorter" where
  "release [] ts = Inr ts"
| "release (successor # rest) ts =
     (case map_of (node2info ts) successor of
        None \<Rightarrow> Inl KeyError
      | Some successor_info \<Rightarrow>
          (let n = npredecessors successor_info - 1;
               ts' = ts\<lparr>node2info :=
                         AList.map_entry successor (\<lambda>i. i\<lparr>npredecessors := n\<rparr>) (node2info ts)\<rparr>
           in release rest
                (if n = 0 then ts'\<lparr>ready_nodes := ready_nodes ts' @ [successor]\<rparr> else ts')))"

definition ts_done :: "'a sorter \<Rightarrow> 'a \<Rightarrow> error + 'a sorter" where
  "ts_done ts node =
     (case map_of (node2info ts) node of
        None \<Rightarrow> Inl ValueError
      | Some nodeinfo \<Rightarrow>
          (let stat = npredecessors nodeinfo in
           if stat \<noteq> - 1 then
             (if stat \<ge> 0 then Inl ValueError
              else if stat = - 2 then Inl ValueError
              else Inl AssertionError)
           else
             (case release (successors nodeinfo)
                     (ts\<lparr>node2info :=
                           AList.map_entry node (\<lambda>i. i\<lparr>npredecessors := - 2\<rparr>) (node2info ts)\<rparr>) of
                Inl e \<Rightarrow> Inl e
              | Inr ts' \<Rightarrow> Inr (ts'\<lparr>nfinished := nfinished ts' + 1\<rparr>))))"

subsection \<open>The leveled table (lines 73 to 91 of \<open>main\<close>)\<close>

text \<open>
  A row of the table is the level, the node and its sorted dependencies (the writer
  joins them with a comma). An exception ends the program: \<open>Raised\<close> keeps the rows
  written before it. \<open>CycleReported\<close> is the \<open>break\<close> after the message
  "Error: Cycle detected in dependencies."; \<open>Finished\<close> is the normal end of the loop.
  The loop is a partial function: not returning is the value \<open>None\<close>.
\<close>

type_synonym 'a row = "nat \<times> 'a \<times> 'a list"

datatype 'a leveling = Finished "'a row list" | CycleReported "'a row list" | Raised error "'a row list"

fun write_level ::
  "('a::linorder \<times> 'a list) list \<Rightarrow> nat \<Rightarrow> 'a list \<Rightarrow> 'a sorter \<Rightarrow> 'a row list
     \<Rightarrow> (error \<times> 'a row list) + ('a sorter \<times> 'a row list)" where
  "write_level dm level [] ts rows = Inr (ts, rows)"
| "write_level dm level (node # rest) ts rows =
     (let dependencies = sort (dm_get dm node);
          rows' = rows @ [(level, node, dependencies)]
      in case ts_done ts node of
           Inl e \<Rightarrow> Inl (e, rows')
         | Inr ts' \<Rightarrow> write_level dm level rest ts' rows')"

partial_function (option) level_loop ::
  "('a::linorder \<times> 'a list) list \<Rightarrow> 'a sorter \<Rightarrow> nat \<Rightarrow> 'a row list \<Rightarrow> 'a leveling option" where
  "level_loop dm ts level rows =
     (if is_active ts then
        (case get_ready ts of
           Inl e \<Rightarrow> Some (Raised e rows)
         | Inr (result, ts1) \<Rightarrow>
             (let ready = sort result in
              if ready = [] then Some (CycleReported rows)
              else (case write_level dm level ready ts1 rows of
                      Inl (e, rows') \<Rightarrow> Some (Raised e rows')
                    | Inr (ts2, rows') \<Rightarrow> level_loop dm ts2 (level + 1) rows')))
      else Some (Finished rows))"

declare level_loop.simps [code]

definition level_order :: "('a::linorder \<times> 'a list) list \<Rightarrow> 'a leveling option" where
  "level_order dm =
     (let graph = dm in
      case prepare (TopologicalSorter graph) of
        Inl e \<Rightarrow> Some (Raised e [])
      | Inr ts \<Rightarrow> level_loop dm ts 0 [])"

subsection \<open>The tree (lines 94 to 109 of \<open>main\<close>)\<close>

text \<open>
  A node of the JSON tree has a name and, only when it has dependencies, the key
  \<open>children\<close>. \<open>build_node\<close> recurses through the dependencies; the first argument
  bounds the depth of the recursion, as the interpreter's recursion limit does, and
  \<open>RecursionError\<close> is what exceeding it raises.
\<close>

datatype 'a tree = Node (name: 'a) (children: "'a tree list option")

fun build_node ::
    "nat \<Rightarrow> ('a::linorder \<times> 'a list) list \<Rightarrow> ('a \<times> 'a tree) list \<Rightarrow> 'a
       \<Rightarrow> error + ('a tree \<times> ('a \<times> 'a tree) list)"
  and build_nodes ::
    "nat \<Rightarrow> ('a::linorder \<times> 'a list) list \<Rightarrow> ('a \<times> 'a tree) list \<Rightarrow> 'a list
       \<Rightarrow> error + ('a tree list \<times> ('a \<times> 'a tree) list)" where
  "build_node 0 dm memo resource_name = Inl RecursionError"
| "build_node (Suc limit) dm memo resource_name =
     (case map_of memo resource_name of
        Some node \<Rightarrow> Inr (node, memo)
      | None \<Rightarrow>
          (let dependencies = sort (dm_get dm resource_name) in
           if dependencies \<noteq> [] then
             (case build_nodes limit dm memo dependencies of
                Inl e \<Rightarrow> Inl e
              | Inr (cs, memo') \<Rightarrow>
                  Inr (Node resource_name (Some cs),
                       AList.update resource_name (Node resource_name (Some cs)) memo'))
           else
             Inr (Node resource_name None,
                  AList.update resource_name (Node resource_name None) memo)))"
| "build_nodes limit dm memo [] = Inr ([], memo)"
| "build_nodes limit dm memo (dep # deps) =
     (case build_node limit dm memo dep of
        Inl e \<Rightarrow> Inl e
      | Inr (node, memo') \<Rightarrow>
          (case build_nodes limit dm memo' deps of
             Inl e \<Rightarrow> Inl e
           | Inr (nodes, memo'') \<Rightarrow> Inr (node # nodes, memo'')))"

definition root_nodes :: "('a \<times> 'a list) list \<Rightarrow> 'a list" where
  "root_nodes dm =
     (let all_dependencies = concat (map snd dm)
      in filter (\<lambda>k. k \<notin> set all_dependencies) (map fst dm))"

definition json_tree :: "nat \<Rightarrow> ('a::linorder \<times> 'a list) list \<Rightarrow> error + 'a tree list" where
  "json_tree limit dm =
     (case build_nodes limit dm [] (sort (root_nodes dm)) of
        Inl e \<Rightarrow> Inl e
      | Inr (nodes, memo) \<Rightarrow> Inr nodes)"

subsection \<open>The two outputs of \<open>main\<close> from the collected file data\<close>

record 'a written =
  csv_rows :: "'a row list"
  cycle_reported :: bool
  trees :: "'a tree list"

definition write_outputs ::
  "nat \<Rightarrow> ('a::linorder \<times> 'a list) list \<Rightarrow> ((error \<times> 'a row list) + 'a written) option" where
  "write_outputs limit dm =
     (case level_order dm of
        None \<Rightarrow> None
      | Some (Raised e rows) \<Rightarrow> Some (Inl (e, rows))
      | Some (Finished rows) \<Rightarrow>
          (case json_tree limit dm of
             Inl e \<Rightarrow> Some (Inl (e, rows))
           | Inr ts \<Rightarrow> Some (Inr \<lparr>csv_rows = rows, cycle_reported = False, trees = ts\<rparr>))
      | Some (CycleReported rows) \<Rightarrow>
          (case json_tree limit dm of
             Inl e \<Rightarrow> Some (Inl (e, rows))
           | Inr ts \<Rightarrow> Some (Inr \<lparr>csv_rows = rows, cycle_reported = True, trees = ts\<rparr>)))"

definition main_core ::
  "nat \<Rightarrow> (pystr \<times> pystr list) list \<Rightarrow> (pystr \<times> pystr) list
     \<Rightarrow> ((error \<times> pystr row list) + pystr written) option" where
  "main_core limit file_data type_to_resource_map =
     write_outputs limit (build_dependency_map file_data type_to_resource_map)"

subsection \<open>Reading the files (lines 46 to 59 of \<open>main\<close>)\<close>

text \<open>
  The input is the listing of the directory with the content of each file. Only the
  names that end in \<open>.graphql\<close> are read. \<open>file_data\<close> and
  \<open>type_to_resource_map\<close> are dicts: a later file overwrites the entry of an earlier
  one with the same key.
\<close>

definition endswith :: "pystr \<Rightarrow> pystr \<Rightarrow> bool" where
  "endswith s suffix \<longleftrightarrow>
     length suffix \<le> length s \<and> drop (length s - length suffix) s = suffix"

definition collect ::
  "(pystr \<Rightarrow> pystr) \<Rightarrow> (pystr \<times> pystr) list
     \<Rightarrow> (pystr \<times> pystr list) list \<times> (pystr \<times> pystr) list" where
  "collect capitalize files =
     fold (\<lambda>(filename, content) (file_data, type_to_resource_map).
             (let main_resource = get_main_resource_name capitalize content filename;
                  defined_types = get_defined_types content;
                  raw_deps = get_dependencies_from_content content
              in (AList.update main_resource raw_deps file_data,
                  fold (\<lambda>t m. AList.update t main_resource m) defined_types
                    type_to_resource_map)))
       (filter (\<lambda>(filename, content). endswith filename (str ''.graphql'')) files)
       ([], [])"

definition main ::
  "(pystr \<Rightarrow> pystr) \<Rightarrow> nat \<Rightarrow> (pystr \<times> pystr) list
     \<Rightarrow> ((error \<times> pystr row list) + pystr written) option" where
  "main capitalize limit files =
     (case collect capitalize files of
        (file_data, type_to_resource_map) \<Rightarrow> main_core limit file_data type_to_resource_map)"

section \<open>Notions for stating and proving the properties\<close>

definition info_of :: "'a node2info \<Rightarrow> 'a \<Rightarrow> 'a nodeinfo" where
  "info_of n2i n =
     (case map_of n2i n of None \<Rightarrow> \<lparr>npredecessors = 0, successors = []\<rparr> | Some i \<Rightarrow> i)"

definition dm_nodes :: "('a \<times> 'a list) list \<Rightarrow> 'a set" where
  "dm_nodes dm = set (map fst dm) \<union> set (concat (map snd dm))"

definition dm_edges :: "('a \<times> 'a list) list \<Rightarrow> ('a \<times> 'a) set" where
  "dm_edges dm = set (concat (map (\<lambda>(n, ds). map (Pair n) ds) dm))"

definition wf_dm :: "('a \<times> 'a list) list \<Rightarrow> bool" where
  "wf_dm dm \<longleftrightarrow> distinct (map fst dm) \<and> list_all (\<lambda>(n, ds). distinct ds) dm"

fun below :: "('a \<times> 'a list) list \<Rightarrow> nat \<Rightarrow> 'a set" where
  "below dm 0 = {}"
| "below dm (Suc k) = {n \<in> dm_nodes dm. set (dm_get dm n) \<subseteq> below dm k}"

definition layer :: "('a \<times> 'a list) list \<Rightarrow> nat \<Rightarrow> 'a set" where
  "layer dm k = below dm (Suc k) - below dm k"

definition base_inv :: "('a \<times> 'a list) list \<Rightarrow> 'a sorter \<Rightarrow> bool" where
  "base_inv dm ts \<longleftrightarrow>
     distinct (map fst (node2info ts)) \<and> fst ` set (node2info ts) = dm_nodes dm \<and>
     (\<forall>n. set (successors (info_of (node2info ts) n)) = {m. n \<in> set (dm_get dm m)} \<and>
          distinct (successors (info_of (node2info ts) n)))"

definition mid_inv :: "('a \<times> 'a list) list \<Rightarrow> nat \<Rightarrow> 'a set \<Rightarrow> 'a sorter \<Rightarrow> bool" where
  "mid_inv dm k P ts \<longleftrightarrow>
     base_inv dm ts \<and>
     (\<forall>n \<in> dm_nodes dm. npredecessors (info_of (node2info ts) n) =
        (if n \<in> below dm k \<union> P then - 2
         else if n \<in> layer dm k then - 1
         else int (card (set (dm_get dm n) - (below dm k \<union> P))))) \<and>
     distinct (ready_nodes ts) \<and>
     set (ready_nodes ts) =
       {n \<in> dm_nodes dm. n \<notin> below dm (Suc k) \<and> set (dm_get dm n) \<subseteq> below dm k \<union> P} \<and>
     nfinished ts + card (layer dm k - P) = npassedout ts"

definition loop_inv :: "('a \<times> 'a list) list \<Rightarrow> nat \<Rightarrow> 'a sorter \<Rightarrow> bool" where
  "loop_inv dm k ts \<longleftrightarrow>
     base_inv dm ts \<and>
     (\<forall>n \<in> dm_nodes dm. npredecessors (info_of (node2info ts) n) =
        (if n \<in> below dm k then - 2 else int (card (set (dm_get dm n) - below dm k)))) \<and>
     distinct (ready_nodes ts) \<and> set (ready_nodes ts) = layer dm k \<and>
     nfinished ts = npassedout ts"

definition level_rows :: "('a::linorder \<times> 'a list) list \<Rightarrow> nat \<Rightarrow> 'a row list" where
  "level_rows dm k = map (\<lambda>n. (k, n, sort (dm_get dm n))) (sorted_list_of_set (layer dm k))"

definition rows_upto :: "('a::linorder \<times> 'a list) list \<Rightarrow> nat \<Rightarrow> 'a row list" where
  "rows_upto dm K = concat (map (level_rows dm) [0..<K])"

definition successors_of :: "'a node2info \<Rightarrow> 'a \<Rightarrow> 'a list" where
  "successors_of n2i n = successors (info_of n2i n)"

definition succ_rel :: "'a node2info \<Rightarrow> ('a \<times> 'a) set" where
  "succ_rel n2i = {(n, s). s \<in> set (successors_of n2i n)}"

fun frames_inv :: "('a \<Rightarrow> 'a list) \<Rightarrow> 'a set \<Rightarrow> 'a option \<Rightarrow> ('a \<times> 'a list) list \<Rightarrow> bool" where
  "frames_inv S B cur [] = True"
| "frames_inv S B cur ((n, rest) # fs) =
     ((\<exists>seen_part. S n = seen_part @ rest \<and> set seen_part \<subseteq> B \<union> set_option cur) \<and>
      (\<forall>a. cur = Some a \<longrightarrow> a \<in> set (S n)) \<and>
      frames_inv S B (Some n) fs)"

definition closed_ranked :: "'a node2info \<Rightarrow> 'a set \<Rightarrow> bool" where
  "closed_ranked n2i B \<longleftrightarrow>
     (\<forall>b\<in>B. set (successors_of n2i b) \<subseteq> B) \<and>
     (\<exists>f :: 'a \<Rightarrow> nat. \<forall>x\<in>B. \<forall>y\<in>set (successors_of n2i x). f y < f x)"

definition dfs_inv :: "'a node2info \<Rightarrow> 'a option \<Rightarrow> ('a \<times> 'a list) list \<Rightarrow> 'a list \<Rightarrow> bool" where
  "dfs_inv n2i cur frames seen \<longleftrightarrow>
     (\<forall>n. set (successors_of n2i n) \<subseteq> fst ` set n2i) \<and>
     distinct (map fst frames) \<and> set (map fst frames) \<subseteq> set seen \<and> set seen \<subseteq> fst ` set n2i \<and>
     frames_inv (successors_of n2i) (set seen - set (map fst frames)) cur frames \<and>
     closed_ranked n2i (set seen - set (map fst frames)) \<and>
     (\<forall>c. cur = Some c \<longrightarrow> c \<in> fst ` set n2i)"

definition dfs_post :: "'a node2info \<Rightarrow> 'a option \<Rightarrow> 'a list \<Rightarrow> 'a cycle_search \<Rightarrow> bool" where
  "dfs_post n2i cur seen r =
     (case r of
        Found c \<Rightarrow> \<not> acyclic (succ_rel n2i)
      | Broken e \<Rightarrow> False
      | NotFound seen' \<Rightarrow>
          set seen \<subseteq> set seen' \<and> set seen' \<subseteq> fst ` set n2i \<and>
          (\<forall>c. cur = Some c \<longrightarrow> c \<in> set seen') \<and> closed_ranked n2i (set seen'))"

definition level_of :: "'a row list \<Rightarrow> 'a \<Rightarrow> nat option" where
  "level_of rows n = map_option fst (find (\<lambda>(l, m, ds). m = n) rows)"

definition row_before :: "'a::linorder row \<Rightarrow> 'a row \<Rightarrow> bool" where
  "row_before r r' \<longleftrightarrow> fst r < fst r' \<or> (fst r = fst r' \<and> fst (snd r) < fst (snd r'))"

fun dep_chain :: "('a \<times> 'a list) list \<Rightarrow> 'a list \<Rightarrow> bool" where
  "dep_chain dm [] = True"
| "dep_chain dm [n] = True"
| "dep_chain dm (n # m # ns) = (m \<in> set (dm_get dm n) \<and> dep_chain dm (m # ns))"

definition same_graph :: "('a \<times> 'a list) list \<Rightarrow> ('a \<times> 'a list) list \<Rightarrow> bool" where
  "same_graph dm1 dm2 \<longleftrightarrow>
     set (map fst dm1) = set (map fst dm2) \<and>
     (\<forall>n \<in> set (map fst dm1). set (dm_get dm1 n) = set (dm_get dm2 n))"

fun tree_of :: "nat \<Rightarrow> ('a::linorder \<times> 'a list) list \<Rightarrow> 'a \<Rightarrow> 'a tree" where
  "tree_of 0 dm n = Node n None"
| "tree_of (Suc k) dm n =
     (let ds = sort (dm_get dm n)
      in if ds \<noteq> [] then Node n (Some (map (tree_of k dm) ds)) else Node n None)"

fun tree_ok :: "('a::linorder \<times> 'a list) list \<Rightarrow> 'a tree \<Rightarrow> bool" where
  "tree_ok dm (Node n cs) =
     (case cs of
        None \<Rightarrow> dm_get dm n = []
      | Some ts \<Rightarrow> ts \<noteq> [] \<and> map name ts = sort (dm_get dm n) \<and> (\<forall>t\<in>set ts. tree_ok dm t))"

fun tree_names :: "'a tree \<Rightarrow> 'a set" where
  "tree_names (Node n cs) =
     insert n (case cs of None \<Rightarrow> {} | Some ts \<Rightarrow> (\<Union>t\<in>set ts. tree_names t))"

definition memo_ok :: "('a::linorder \<times> 'a list) list \<Rightarrow> ('a \<times> 'a tree) list \<Rightarrow> bool" where
  "memo_ok dm memo \<longleftrightarrow>
     (\<forall>m t. map_of memo m = Some t \<longrightarrow> (\<exists>k. m \<in> below dm k \<and> t = tree_of k dm m))"

fun min_len :: "re \<Rightarrow> nat" where
  "min_len (Lit w) = length w"
| "min_len (Cls p) = 1"
| "min_len (Seq r1 r2) = min_len r1 + min_len r2"
| "min_len (Alt r1 r2) = min (min_len r1) (min_len r2)"
| "min_len (Star r) = 0"
| "min_len (Lazy r) = 0"
| "min_len (Opt r) = 0"
| "min_len (Grp r) = min_len r"

fun caps_ok :: "re \<Rightarrow> bool" where
  "caps_ok (Lit w) = True"
| "caps_ok (Cls p) = True"
| "caps_ok (Seq r1 r2) = (caps_ok r1 \<and> caps_ok r2)"
| "caps_ok (Alt r1 r2) = (caps_ok r1 \<and> caps_ok r2)"
| "caps_ok (Star r) = caps_ok r"
| "caps_ok (Lazy r) = caps_ok r"
| "caps_ok (Opt r) = caps_ok r"
| "caps_ok (Grp r) = (2 \<le> min_len r)"

fun sets_cap :: "re \<Rightarrow> bool" where
  "sets_cap (Seq r1 r2) = (sets_cap r1 \<or> sets_cap r2)"
| "sets_cap (Alt r1 r2) = (sets_cap r1 \<and> sets_cap r2)"
| "sets_cap (Grp r) = True"
| "sets_cap r = False"

definition cap_fine :: "pystr option \<Rightarrow> bool" where
  "cap_fine c = (case c of None \<Rightarrow> True | Some w \<Rightarrow> 2 \<le> length w)"

section \<open>Facts about the model\<close>

lemma dm_get_dm_add:
  "set (dm_get (dm_add dm r d) r') = (if r' = r then insert d (set (dm_get dm r)) else set (dm_get dm r'))"
  by (auto simp: dm_get_def dm_add_def set_add_def update_conv' split: option.splits)

lemma dm_get_add_dep:
  "set (dm_get (add_dep m r d dm) r') =
     set (dm_get dm r') \<union>
       (if r' = r \<and> d \<notin> set SCALAR_TYPES \<and> d \<noteq> r \<and> map_of m d \<noteq> Some r then {d} else {})"
  by (simp add: add_dep_def dm_get_dm_add)

lemma dm_get_fold_add_dep:
  "set (dm_get (fold (add_dep m r) raw dm) r') =
     set (dm_get dm r') \<union>
       {d \<in> set raw. r' = r \<and> d \<notin> set SCALAR_TYPES \<and> d \<noteq> r \<and> map_of m d \<noteq> Some r}"
  by (induction raw arbitrary: dm) (auto simp: dm_get_add_dep split: if_splits)

lemma dm_get_fold_resources:
  "set (dm_get (fold (\<lambda>(resource, raw_deps) dm. fold (add_dep m resource) raw_deps dm) fd dm) r) =
     set (dm_get dm r) \<union>
       {d. \<exists>raw. (r, raw) \<in> set fd \<and> d \<in> set raw \<and> d \<notin> set SCALAR_TYPES \<and> d \<noteq> r
             \<and> map_of m d \<noteq> Some r}"
proof (induction fd arbitrary: dm)
  case Nil
  then show ?case by simp
next
  case (Cons p fd)
  obtain r0 raw0 where p: "p = (r0, raw0)" by (cases p)
  show ?case
    unfolding p by (auto simp: Cons.IH dm_get_fold_add_dep)
qed

lemma dm_get_build:
  "set (dm_get (build_dependency_map fd m) r) =
     {d. \<exists>raw. (r, raw) \<in> set fd \<and> d \<in> set raw \<and> d \<notin> set SCALAR_TYPES \<and> d \<noteq> r
           \<and> map_of m d \<noteq> Some r}"
proof -
  have "set (dm_get ([] :: (pystr \<times> pystr list) list) r) = {}"
    by (simp add: dm_get_def)
  then show ?thesis
    unfolding build_dependency_map_def dm_get_fold_resources by simp
qed

lemma map_of_Some_key: "map_of g n = Some v \<Longrightarrow> n \<in> fst ` set g"
  by (auto dest!: map_of_SomeD intro: rev_image_eqI)

lemma info_of_get_nodeinfo [simp]: "info_of (get_nodeinfo n2i x) = info_of n2i"
  by (auto simp: info_of_def get_nodeinfo_def fun_eq_iff map_of_eq_None_iff
      split: option.splits if_splits dest: map_of_Some_key)

lemma keys_get_nodeinfo [simp]: "fst ` set (get_nodeinfo n2i x) = insert x (fst ` set n2i)"
  by (auto simp: get_nodeinfo_def map_of_eq_None_iff split: option.splits dest: map_of_SomeD intro: rev_image_eqI)

lemma distinct_get_nodeinfo [simp]:
  "distinct (map fst n2i) \<Longrightarrow> distinct (map fst (get_nodeinfo n2i x))"
  by (auto simp: get_nodeinfo_def map_of_eq_None_iff split: option.splits)

lemma info_of_map_entry:
  "k \<in> fst ` set n2i \<Longrightarrow> info_of (AList.map_entry k f n2i) = (info_of n2i)(k := f (info_of n2i k))"
  by (auto simp: info_of_def fun_eq_iff map_of_map_entry map_of_eq_None_iff split: option.splits)

lemma info_of_add_successor:
  "info_of (add_successor node pred n2i) =
     (info_of n2i)(pred := (info_of n2i pred)\<lparr>successors := successors (info_of n2i pred) @ [node]\<rparr>)"
  by (simp add: add_successor_def info_of_map_entry)

lemma keys_add_successor [simp]:
  "fst ` set (add_successor node pred n2i) = insert pred (fst ` set n2i)"
  by (simp add: add_successor_def dom_map_entry)

lemma distinct_add_successor [simp]:
  "distinct (map fst n2i) \<Longrightarrow> distinct (map fst (add_successor node pred n2i))"
  by (simp add: add_successor_def distinct_map_entry)

lemma keys_fold_add_successor [simp]:
  "fst ` set (fold (add_successor node) preds n2i) = set preds \<union> fst ` set n2i"
  by (induction preds arbitrary: n2i) auto

lemma distinct_fold_add_successor [simp]:
  "distinct (map fst n2i) \<Longrightarrow> distinct (map fst (fold (add_successor node) preds n2i))"
  by (induction preds arbitrary: n2i) auto

lemma info_of_fold_add_successor:
  "distinct preds \<Longrightarrow>
   info_of (fold (add_successor node) preds n2i) n =
     (if n \<in> set preds
      then (info_of n2i n)\<lparr>successors := successors (info_of n2i n) @ [node]\<rparr>
      else info_of n2i n)"
  by (induction preds arbitrary: n2i) (auto simp: info_of_add_successor)

lemma keys_add [simp]: "fst ` set (add node preds n2i) = insert node (set preds \<union> fst ` set n2i)"
  by (auto simp: add_def dom_map_entry)

lemma distinct_add [simp]: "distinct (map fst n2i) \<Longrightarrow> distinct (map fst (add node preds n2i))"
  by (simp add: add_def distinct_map_entry)

lemma info_of_add:
  "distinct preds \<Longrightarrow>
   info_of (add node preds n2i) n =
     \<lparr>npredecessors = npredecessors (info_of n2i n) + (if n = node then int (length preds) else 0),
      successors = successors (info_of n2i n) @ (if n \<in> set preds then [node] else [])\<rparr>"
  by (auto simp: add_def info_of_fold_add_successor info_of_map_entry)

lemma TopologicalSorter_snoc:
  "TopologicalSorter (g @ [(node, preds)]) = add node preds (TopologicalSorter g)"
  by (simp add: TopologicalSorter_def)

lemma dm_get_snoc:
  "node \<notin> fst ` set g \<Longrightarrow> dm_get (g @ [(node, preds)]) n = (if n = node then preds else dm_get g n)"
  by (auto simp: dm_get_def map_add_def map_of_eq_None_iff split: option.splits
      dest: map_of_Some_key)

lemma dm_get_not_key: "n \<notin> fst ` set g \<Longrightarrow> dm_get g n = []"
  by (auto simp: dm_get_def map_of_eq_None_iff split: option.splits dest: map_of_Some_key)

lemma TopologicalSorter_props:
  "wf_dm g \<Longrightarrow>
     distinct (map fst (TopologicalSorter g)) \<and>
     fst ` set (TopologicalSorter g) = dm_nodes g \<and>
     (\<forall>n. npredecessors (info_of (TopologicalSorter g) n) = int (length (dm_get g n)) \<and>
          set (successors (info_of (TopologicalSorter g) n)) = {m. n \<in> set (dm_get g m)} \<and>
          distinct (successors (info_of (TopologicalSorter g) n)))"
proof (induction g rule: rev_induct)
  case Nil
  then show ?case
    by (simp add: TopologicalSorter_def dm_nodes_def info_of_def dm_get_def)
next
  case (snoc p g)
  obtain node preds where p: "p = (node, preds)" by (cases p)
  from snoc.prems have wf: "wf_dm g" and new: "node \<notin> fst ` set g" and dp: "distinct preds"
    by (auto simp: wf_dm_def p)
  note IH = snoc.IH [OF wf]
  have nosucc: "node \<notin> set (successors (info_of (TopologicalSorter g) n))" for n
    using IH new by (auto simp: dm_get_not_key)
  show ?case
    unfolding p TopologicalSorter_snoc
    using IH new dp nosucc
    by (auto simp: info_of_add dm_get_snoc dm_nodes_def dm_get_not_key)
qed

lemma below_mono: "below dm k \<subseteq> below dm (Suc k)"
  by (induction k) auto

lemma below_Suc: "below dm (Suc k) = {n \<in> dm_nodes dm. set (dm_get dm n) \<subseteq> below dm k}"
  by simp

declare below.simps(2) [simp del]

lemma below_nodes: "below dm k \<subseteq> dm_nodes dm"
  by (cases k) (auto simp: below_Suc)

lemma below_closed: "n \<in> below dm k \<Longrightarrow> set (dm_get dm n) \<subseteq> below dm k"
proof (cases k)
  case 0
  then show "n \<in> below dm k \<Longrightarrow> ?thesis" by simp
next
  case (Suc j)
  assume "n \<in> below dm k"
  then have "set (dm_get dm n) \<subseteq> below dm j"
    by (simp add: Suc below_Suc)
  then show ?thesis
    using below_mono [of dm j] by (auto simp: Suc)
qed

lemma below_Suc_layer: "below dm (Suc k) = below dm k \<union> layer dm k"
  using below_mono [of dm k] by (auto simp: layer_def)

lemma finite_dm_nodes [simp]: "finite (dm_nodes dm)"
  by (simp add: dm_nodes_def)

lemma finite_below [simp]: "finite (below dm k)"
  using below_nodes finite_dm_nodes by (rule finite_subset)

lemma dm_get_nodes: "d \<in> set (dm_get dm n) \<Longrightarrow> d \<in> dm_nodes dm \<and> n \<in> dm_nodes dm"
proof -
  assume d: "d \<in> set (dm_get dm n)"
  then obtain ds where "map_of dm n = Some ds" "d \<in> set ds"
    by (cases "map_of dm n") (auto simp: dm_get_def)
  then have "(n, ds) \<in> set dm" "d \<in> set ds"
    by (auto dest: map_of_SomeD)
  then show ?thesis
    by (force simp: dm_nodes_def)
qed

lemma mark_out_effect:
  "set nodes \<subseteq> fst ` set n2i \<Longrightarrow>
   \<exists>n2i'. mark_out nodes n2i = Inr n2i' \<and> fst ` set n2i' = fst ` set n2i \<and>
     (distinct (map fst n2i) \<longrightarrow> distinct (map fst n2i')) \<and>
     (\<forall>n. info_of n2i' n =
        (if n \<in> set nodes then (info_of n2i n)\<lparr>npredecessors := - 1\<rparr> else info_of n2i n))"
proof (induction nodes arbitrary: n2i)
  case Nil
  then show ?case by simp
next
  case (Cons a nodes)
  let ?m = "AList.map_entry a (\<lambda>i. i\<lparr>npredecessors := - 1\<rparr>) n2i"
  from Cons.prems have a: "a \<in> fst ` set n2i" and rest: "set nodes \<subseteq> fst ` set ?m"
    by (auto simp: dom_map_entry)
  from a obtain i where i: "map_of n2i a = Some i"
    by (cases "map_of n2i a") (auto simp: map_of_eq_None_iff)
  from Cons.IH [OF rest] obtain n2i' where
    r: "mark_out nodes ?m = Inr n2i'" "fst ` set n2i' = fst ` set ?m"
       "distinct (map fst ?m) \<longrightarrow> distinct (map fst n2i')"
       "\<forall>n. info_of n2i' n =
          (if n \<in> set nodes then (info_of ?m n)\<lparr>npredecessors := - 1\<rparr> else info_of ?m n)"
    by blast
  show ?case
    using r i a by (auto simp: dom_map_entry distinct_map_entry info_of_map_entry)
qed

lemma release_effect:
  "set succs \<subseteq> fst ` set (node2info ts) \<Longrightarrow> distinct succs \<Longrightarrow>
   \<exists>ts'. release succs ts = Inr ts' \<and> fst ` set (node2info ts') = fst ` set (node2info ts) \<and>
     (distinct (map fst (node2info ts)) \<longrightarrow> distinct (map fst (node2info ts'))) \<and>
     (\<forall>n. info_of (node2info ts') n =
        (if n \<in> set succs
         then (info_of (node2info ts) n)\<lparr>npredecessors := npredecessors (info_of (node2info ts) n) - 1\<rparr>
         else info_of (node2info ts) n)) \<and>
     ready_nodes ts' =
       ready_nodes ts @ filter (\<lambda>s. npredecessors (info_of (node2info ts) s) = 1) succs \<and>
     npassedout ts' = npassedout ts \<and> nfinished ts' = nfinished ts"
proof (induction succs arbitrary: ts)
  case Nil
  then show ?case by simp
next
  case (Cons a succs)
  from Cons.prems have a: "a \<in> fst ` set (node2info ts)" and na: "a \<notin> set succs"
    and ds: "distinct succs" by auto
  from a obtain i where i: "map_of (node2info ts) a = Some i"
    by (cases "map_of (node2info ts) a") (auto simp: map_of_eq_None_iff)
  have ia: "info_of (node2info ts) a = i"
    using i by (simp add: info_of_def)
  define n where "n = npredecessors i - 1"
  define ts1 where "ts1 = ts\<lparr>node2info :=
     AList.map_entry a (\<lambda>i. i\<lparr>npredecessors := n\<rparr>) (node2info ts)\<rparr>"
  define ts2 where "ts2 = (if n = 0 then ts1\<lparr>ready_nodes := ready_nodes ts1 @ [a]\<rparr> else ts1)"
  have step: "release (a # succs) ts = release succs ts2"
    using i by (simp add: ts2_def ts1_def n_def Let_def)
  have k2: "fst ` set (node2info ts2) = fst ` set (node2info ts)"
    by (simp add: ts2_def ts1_def dom_map_entry)
  have d2: "distinct (map fst (node2info ts)) \<longrightarrow> distinct (map fst (node2info ts2))"
    by (simp add: ts2_def ts1_def distinct_map_entry)
  have i2: "info_of (node2info ts2) = (info_of (node2info ts))(a := i\<lparr>npredecessors := n\<rparr>)"
    using a ia by (simp add: ts2_def ts1_def info_of_map_entry)
  have r2: "ready_nodes ts2 = ready_nodes ts @ (if n = 0 then [a] else [])"
    and c2: "npassedout ts2 = npassedout ts" "nfinished ts2 = nfinished ts"
    by (simp_all add: ts2_def ts1_def)
  have sub: "set succs \<subseteq> fst ` set (node2info ts2)"
    using Cons.prems k2 by auto
  from Cons.IH [OF sub ds] obtain ts' where
    r: "release succs ts2 = Inr ts'" "fst ` set (node2info ts') = fst ` set (node2info ts2)"
       "distinct (map fst (node2info ts2)) \<longrightarrow> distinct (map fst (node2info ts'))"
       "\<forall>n. info_of (node2info ts') n =
          (if n \<in> set succs
           then (info_of (node2info ts2) n)\<lparr>npredecessors := npredecessors (info_of (node2info ts2) n) - 1\<rparr>
           else info_of (node2info ts2) n)"
       "ready_nodes ts' =
          ready_nodes ts2 @ filter (\<lambda>s. npredecessors (info_of (node2info ts2) s) = 1) succs"
       "npassedout ts' = npassedout ts2" "nfinished ts' = nfinished ts2"
    by blast
  have filt: "filter (\<lambda>s. npredecessors (info_of (node2info ts2) s) = 1) succs =
     filter (\<lambda>s. npredecessors (info_of (node2info ts) s) = 1) succs"
    using na by (intro filter_cong) (auto simp: i2)
  have info': "info_of (node2info ts') m =
        (if m \<in> set (a # succs)
         then (info_of (node2info ts) m)\<lparr>npredecessors := npredecessors (info_of (node2info ts) m) - 1\<rparr>
         else info_of (node2info ts) m)" for m
    using r(4) na ia by (auto simp: i2 n_def)
  have ready': "ready_nodes ts' =
       ready_nodes ts @ filter (\<lambda>s. npredecessors (info_of (node2info ts) s) = 1) (a # succs)"
    unfolding r(5) filt r2 using ia by (auto simp: n_def)
  show ?case
    unfolding step
    using r(1,2,3,6,7) k2 d2 c2 info' ready' by (intro exI [of _ ts']) simp
qed

lemma layer_nodes: "layer dm k \<subseteq> dm_nodes dm"
  using below_nodes [of dm "Suc k"] by (auto simp: layer_def)

lemma layer_deps: "n \<in> layer dm k \<Longrightarrow> set (dm_get dm n) \<subseteq> below dm k"
  by (auto simp: layer_def below_Suc)

lemma layer_iff:
  "n \<in> layer dm k \<longleftrightarrow> n \<in> dm_nodes dm \<and> n \<notin> below dm k \<and> set (dm_get dm n) \<subseteq> below dm k"
  by (auto simp: layer_def below_Suc)

lemma get_ready_inv:
  assumes "loop_inv dm k ts"
  shows "\<exists>ts1. get_ready ts = Inr (ready_nodes ts, ts1) \<and> mid_inv dm k {} ts1"
proof -
  from assms have base: "base_inv dm ts"
    and np: "\<forall>n \<in> dm_nodes dm. npredecessors (info_of (node2info ts) n) =
        (if n \<in> below dm k then - 2 else int (card (set (dm_get dm n) - below dm k)))"
    and dr: "distinct (ready_nodes ts)" and sr: "set (ready_nodes ts) = layer dm k"
    and cnt: "nfinished ts = npassedout ts"
    by (simp_all add: loop_inv_def)
  from base have keys: "fst ` set (node2info ts) = dm_nodes dm"
    and dk: "distinct (map fst (node2info ts))"
    by (simp_all add: base_inv_def)
  have "set (ready_nodes ts) \<subseteq> fst ` set (node2info ts)"
    using sr keys layer_nodes [of dm k] by simp
  from mark_out_effect [OF this] obtain n2i' where
    m0: "mark_out (ready_nodes ts) (node2info ts) = Inr n2i' \<and>
       fst ` set n2i' = fst ` set (node2info ts) \<and>
       (distinct (map fst (node2info ts)) \<longrightarrow> distinct (map fst n2i')) \<and>
       (\<forall>n. info_of n2i' n =
        (if n \<in> set (ready_nodes ts) then (info_of (node2info ts) n)\<lparr>npredecessors := - 1\<rparr>
         else info_of (node2info ts) n))" ..
  then have
    m: "mark_out (ready_nodes ts) (node2info ts) = Inr n2i'"
       "fst ` set n2i' = fst ` set (node2info ts)"
       "distinct (map fst n2i')"
       "\<forall>n. info_of n2i' n =
        (if n \<in> set (ready_nodes ts) then (info_of (node2info ts) n)\<lparr>npredecessors := - 1\<rparr>
         else info_of (node2info ts) n)"
    using dk by simp_all
  define ts1 where "ts1 = ts\<lparr>node2info := n2i', ready_nodes := [],
                          npassedout := npassedout ts + length (ready_nodes ts)\<rparr>"
  have g: "get_ready ts = Inr (ready_nodes ts, ts1)"
    by (simp add: get_ready_def m(1) ts1_def Let_def)
  have "successors (info_of n2i' n) = successors (info_of (node2info ts) n)" for n
    using m(4) by simp
  then have b1: "base_inv dm ts1"
    using base m(2,3) by (simp add: base_inv_def ts1_def)
  have len: "length (ready_nodes ts) = card (layer dm k)"
    using dr sr distinct_card [of "ready_nodes ts"] by simp
  have mid: "mid_inv dm k {} ts1"
    unfolding mid_inv_def
  proof (intro conjI ballI)
    show "base_inv dm ts1" by (rule b1)
    show "distinct (ready_nodes ts1)" by (simp add: ts1_def)
    show "set (ready_nodes ts1) =
       {n \<in> dm_nodes dm. n \<notin> below dm (Suc k) \<and> set (dm_get dm n) \<subseteq> below dm k \<union> {}}"
      by (auto simp: ts1_def below_Suc)
    show "nfinished ts1 + card (layer dm k - {}) = npassedout ts1"
      using cnt len by (simp add: ts1_def)
  next
    fix n assume n: "n \<in> dm_nodes dm"
    have l: "n \<in> layer dm k \<Longrightarrow> n \<notin> below dm k"
      by (simp add: layer_def)
    have i1: "info_of (node2info ts1) n =
        (if n \<in> layer dm k then (info_of (node2info ts) n)\<lparr>npredecessors := - 1\<rparr>
         else info_of (node2info ts) n)"
      using m(4) sr by (simp add: ts1_def)
    show "npredecessors (info_of (node2info ts1) n) =
        (if n \<in> below dm k \<union> {} then - 2
         else if n \<in> layer dm k then - 1
         else int (card (set (dm_get dm n) - (below dm k \<union> {}))))"
      unfolding i1 using np n l by simp
  qed
  show ?thesis
    using g mid by (intro exI [of _ ts1]) simp
qed

lemma mid_inv_done:
  assumes "mid_inv dm k (layer dm k) ts"
  shows "loop_inv dm (Suc k) ts"
proof -
  have eq: "below dm k \<union> layer dm k = below dm (Suc k)"
    by (simp add: below_Suc_layer)
  have l: "layer dm (Suc k) =
     {n \<in> dm_nodes dm. n \<notin> below dm (Suc k) \<and> set (dm_get dm n) \<subseteq> below dm (Suc k)}"
    by (auto simp: layer_iff)
  have "n \<in> layer dm k \<Longrightarrow> n \<in> below dm (Suc k)" for n
    by (simp add: layer_def)
  with assms show ?thesis
    unfolding mid_inv_def loop_inv_def eq l by simp
qed

lemma ts_done_inv:
  assumes mid: "mid_inv dm k P ts" and P: "P \<subseteq> layer dm k" and p: "p \<in> layer dm k" "p \<notin> P"
  shows "\<exists>ts'. ts_done ts p = Inr ts' \<and> mid_inv dm k (insert p P) ts'"
proof -
  let ?I = "info_of (node2info ts)"
  let ?B = "below dm k \<union> P"
  from mid have base: "base_inv dm ts"
    and np: "\<forall>n \<in> dm_nodes dm. npredecessors (?I n) =
        (if n \<in> ?B then - 2 else if n \<in> layer dm k then - 1
         else int (card (set (dm_get dm n) - ?B)))"
    and dr: "distinct (ready_nodes ts)"
    and sr: "set (ready_nodes ts) =
       {n \<in> dm_nodes dm. n \<notin> below dm (Suc k) \<and> set (dm_get dm n) \<subseteq> ?B}"
    and cnt: "nfinished ts + card (layer dm k - P) = npassedout ts"
    by (simp_all add: mid_inv_def)
  from base have keys: "fst ` set (node2info ts) = dm_nodes dm"
    and dk: "distinct (map fst (node2info ts))"
    and sc: "\<And>n. set (successors (?I n)) = {m. n \<in> set (dm_get dm m)}"
    and dsc: "\<And>n. distinct (successors (?I n))"
    by (simp_all add: base_inv_def)
  have pn: "p \<in> dm_nodes dm" and pb: "p \<notin> below dm k" and pS: "p \<in> below dm (Suc k)"
    using p(1) layer_nodes [of dm k] by (auto simp: layer_def)
  have npp: "npredecessors (?I p) = - 1"
    using np pn pb p by simp
  from pn keys obtain i where i: "map_of (node2info ts) p = Some i"
    by (cases "map_of (node2info ts) p") (auto simp: map_of_eq_None_iff)
  have ip: "?I p = i"
    using i by (simp add: info_of_def)
  define SC where "SC = successors i"
  have SCset: "set SC = {m. p \<in> set (dm_get dm m)}" and SCd: "distinct SC"
    using sc [of p] dsc [of p] by (simp_all add: SC_def ip)
  have SCfacts: "s \<in> dm_nodes dm \<and> s \<notin> below dm (Suc k) \<and> s \<notin> below dm k \<and> s \<notin> layer dm k
      \<and> s \<notin> P \<and> s \<noteq> p" if "s \<in> set SC" for s
  proof -
    from that have d: "p \<in> set (dm_get dm s)" by (simp add: SCset)
    then have "s \<in> dm_nodes dm" by (simp add: dm_get_nodes)
    moreover have nS: "s \<notin> below dm (Suc k)"
      using d pb by (auto simp: below_Suc)
    moreover have "s \<notin> below dm k"
      using nS below_mono [of dm k] by auto
    moreover have "s \<notin> layer dm k"
      using nS by (simp add: layer_def)
    moreover have "s \<notin> P" using \<open>s \<notin> layer dm k\<close> P by auto
    moreover have "s \<noteq> p" using nS pS by auto
    ultimately show ?thesis by simp
  qed
  define ts0 where "ts0 = ts\<lparr>node2info :=
      AList.map_entry p (\<lambda>i. i\<lparr>npredecessors := - 2\<rparr>) (node2info ts)\<rparr>"
  have k0: "fst ` set (node2info ts0) = dm_nodes dm"
    and d0: "distinct (map fst (node2info ts0))"
    using keys dk by (simp_all add: ts0_def dom_map_entry distinct_map_entry)
  have i0: "info_of (node2info ts0) = ?I(p := i\<lparr>npredecessors := - 2\<rparr>)"
    using pn keys ip by (simp add: ts0_def info_of_map_entry)
  have sub: "set SC \<subseteq> fst ` set (node2info ts0)"
    using SCfacts k0 by auto
  from release_effect [OF sub SCd] obtain ts1 where
    r0: "release SC ts0 = Inr ts1 \<and> fst ` set (node2info ts1) = fst ` set (node2info ts0) \<and>
     (distinct (map fst (node2info ts0)) \<longrightarrow> distinct (map fst (node2info ts1))) \<and>
     (\<forall>n. info_of (node2info ts1) n =
        (if n \<in> set SC
         then (info_of (node2info ts0) n)\<lparr>npredecessors := npredecessors (info_of (node2info ts0) n) - 1\<rparr>
         else info_of (node2info ts0) n)) \<and>
     ready_nodes ts1 =
       ready_nodes ts0 @ filter (\<lambda>s. npredecessors (info_of (node2info ts0) s) = 1) SC \<and>
     npassedout ts1 = npassedout ts0 \<and> nfinished ts1 = nfinished ts0" ..
  then have r: "release SC ts0 = Inr ts1"
    and k1: "fst ` set (node2info ts1) = dm_nodes dm"
    and d1: "distinct (map fst (node2info ts1))"
    and i1: "\<And>n. info_of (node2info ts1) n =
        (if n \<in> set SC
         then (info_of (node2info ts0) n)\<lparr>npredecessors := npredecessors (info_of (node2info ts0) n) - 1\<rparr>
         else info_of (node2info ts0) n)"
    and r1: "ready_nodes ts1 =
       ready_nodes ts0 @ filter (\<lambda>s. npredecessors (info_of (node2info ts0) s) = 1) SC"
    and c1: "npassedout ts1 = npassedout ts0" "nfinished ts1 = nfinished ts0"
    using k0 d0 by simp_all
  define ts' where "ts' = ts1\<lparr>nfinished := nfinished ts1 + 1\<rparr>"
  have res: "ts_done ts p = Inr ts'"
    using i npp ip r by (simp add: ts_done_def Let_def SC_def ts0_def ts'_def)
  have info': "info_of (node2info ts') n =
      (if n = p then i\<lparr>npredecessors := - 2\<rparr>
       else if n \<in> set SC then (?I n)\<lparr>npredecessors := npredecessors (?I n) - 1\<rparr>
       else ?I n)" for n
    using SCfacts [of n] by (auto simp: ts'_def i1 i0)
  have succ': "successors (info_of (node2info ts') n) = successors (?I n)" for n
    unfolding info' using ip by auto
  have base': "base_inv dm ts'"
    unfolding base_inv_def succ' using k1 d1 sc dsc by (simp add: ts'_def)
  have card_step: "int (card (set (dm_get dm s) - (below dm k \<union> insert p P))) =
      int (card (set (dm_get dm s) - ?B)) - 1" if "s \<in> set SC" for s
  proof -
    have pin: "p \<in> set (dm_get dm s) - ?B"
      using that pb p(2) by (simp add: SCset)
    have eq: "set (dm_get dm s) - (below dm k \<union> insert p P) = (set (dm_get dm s) - ?B) - {p}"
      by auto
    have fin: "finite (set (dm_get dm s) - ?B)"
      by simp
    have c: "card ((set (dm_get dm s) - ?B) - {p}) = card (set (dm_get dm s) - ?B) - 1"
      using pin fin by (simp add: card_Diff_singleton)
    have "card (set (dm_get dm s) - ?B) > 0"
      using pin fin card_gt_0_iff by blast
    then show ?thesis
      unfolding eq c by (simp add: of_nat_diff)
  qed
  have np': "npredecessors (info_of (node2info ts') n) =
        (if n \<in> below dm k \<union> insert p P then - 2
         else if n \<in> layer dm k then - 1
         else int (card (set (dm_get dm n) - (below dm k \<union> insert p P))))"
    if n: "n \<in> dm_nodes dm" for n
  proof (cases "n = p")
    case True
    then show ?thesis by (simp add: info')
  next
    case False
    show ?thesis
    proof (cases "n \<in> set SC")
      case True
      from SCfacts [OF True] np n have "npredecessors (?I n) = int (card (set (dm_get dm n) - ?B))"
        by simp
      then show ?thesis
        using SCfacts [OF True] card_step [OF True] by (simp add: info' True)
    next
      case nSC: False
      then have "p \<notin> set (dm_get dm n)" by (simp add: SCset)
      then have "set (dm_get dm n) - (below dm k \<union> insert p P) = set (dm_get dm n) - ?B"
        by auto
      then show ?thesis
        using np n False nSC by (simp add: info')
    qed
  qed
  have filt: "filter (\<lambda>s. npredecessors (info_of (node2info ts0) s) = 1) SC =
      filter (\<lambda>s. set (dm_get dm s) \<subseteq> below dm k \<union> insert p P) SC"
  proof (rule filter_cong [OF refl])
    fix s assume s: "s \<in> set SC"
    from SCfacts [OF s] np have "npredecessors (?I s) = int (card (set (dm_get dm s) - ?B))"
      by simp
    then have a: "npredecessors (info_of (node2info ts0) s) = int (card (set (dm_get dm s) - ?B))"
      using SCfacts [OF s] by (simp add: i0)
    have pin: "p \<in> set (dm_get dm s) - ?B"
      using s pb p(2) by (simp add: SCset)
    have "card (set (dm_get dm s) - ?B) = 1 \<longleftrightarrow> (\<exists>x. set (dm_get dm s) - ?B = {x})"
      by (simp add: card_1_singleton_iff)
    also have "\<dots> \<longleftrightarrow> set (dm_get dm s) - ?B = {p}"
    proof
      assume "\<exists>x. set (dm_get dm s) - ?B = {x}"
      then obtain x where x: "set (dm_get dm s) - ?B = {x}" ..
      with pin have "p = x" by simp
      with x show "set (dm_get dm s) - ?B = {p}" by simp
    next
      assume "set (dm_get dm s) - ?B = {p}"
      then show "\<exists>x. set (dm_get dm s) - ?B = {x}" ..
    qed
    also have "\<dots> \<longleftrightarrow> set (dm_get dm s) \<subseteq> below dm k \<union> insert p P"
      using pin by auto
    finally show "(npredecessors (info_of (node2info ts0) s) = 1) =
        (set (dm_get dm s) \<subseteq> below dm k \<union> insert p P)"
      unfolding a by simp
  qed
  have ready': "ready_nodes ts' =
      ready_nodes ts @ filter (\<lambda>s. set (dm_get dm s) \<subseteq> below dm k \<union> insert p P) SC"
  proof -
    have "ready_nodes ts0 = ready_nodes ts"
      by (simp add: ts0_def)
    then show ?thesis
      by (simp add: ts'_def r1 filt)
  qed
  have dr': "distinct (ready_nodes ts')"
    unfolding ready' using dr SCd sr SCset pb p(2) by auto
  have sr': "set (ready_nodes ts') =
       {n \<in> dm_nodes dm. n \<notin> below dm (Suc k) \<and> set (dm_get dm n) \<subseteq> below dm k \<union> insert p P}"
    unfolding ready' using sr SCfacts SCset by auto
  have e: "layer dm k - P = insert p (layer dm k - insert p P)"
    and notin: "p \<notin> layer dm k - insert p P"
    using p by auto
  have fin: "finite (layer dm k - insert p P)"
    using finite_subset [OF layer_nodes finite_dm_nodes, of dm k] by (rule finite_Diff)
  have "card (insert p (layer dm k - insert p P)) = Suc (card (layer dm k - insert p P))"
    using fin notin by (rule card_insert_disjoint)
  then have "card (layer dm k - P) = Suc (card (layer dm k - insert p P))"
    by (subst e)
  then have cnt': "nfinished ts' + card (layer dm k - insert p P) = npassedout ts'"
    using cnt c1 by (simp add: ts'_def ts0_def)
  have "mid_inv dm k (insert p P) ts'"
    unfolding mid_inv_def using base' np' dr' sr' cnt' by simp
  with res show ?thesis
    by (intro exI [of _ ts']) simp
qed

lemma write_level_inv:
  "mid_inv dm k P ts \<Longrightarrow> P \<subseteq> layer dm k \<Longrightarrow> distinct nodes \<Longrightarrow> set nodes = layer dm k - P \<Longrightarrow>
   \<exists>ts'. write_level dm k nodes ts rows =
            Inr (ts', rows @ map (\<lambda>n. (k, n, sort (dm_get dm n))) nodes) \<and>
         mid_inv dm k (layer dm k) ts'"
proof (induction nodes arbitrary: P ts rows)
  case Nil
  then have "P = layer dm k" by auto
  with Nil show ?case by simp
next
  case (Cons a nodes)
  from Cons.prems have a: "a \<in> layer dm k" "a \<notin> P" by auto
  from ts_done_inv [OF Cons.prems(1,2) a] obtain ts1 where
    d: "ts_done ts a = Inr ts1" and m1: "mid_inv dm k (insert a P) ts1"
    by (elim exE conjE)
  have P': "insert a P \<subseteq> layer dm k"
    using a Cons.prems(2) by simp
  have dn: "distinct nodes" and sn: "set nodes = layer dm k - insert a P"
    using Cons.prems(3,4) by auto
  from Cons.IH [OF m1 P' dn sn, of "rows @ [(k, a, sort (dm_get dm a))]"] obtain ts' where
    w: "write_level dm k nodes ts1 (rows @ [(k, a, sort (dm_get dm a))]) =
          Inr (ts', (rows @ [(k, a, sort (dm_get dm a))]) @ map (\<lambda>n. (k, n, sort (dm_get dm n))) nodes)"
    and m': "mid_inv dm k (layer dm k) ts'"
    by (elim exE conjE)
  show ?case
    using d w m' by (intro exI [of _ ts']) (simp add: Let_def)
qed

lemma level_loop_inv:
  "loop_inv dm k ts \<Longrightarrow>
   \<exists>K\<ge>k. level_loop dm ts k (rows_upto dm k) = Some (Finished (rows_upto dm K)) \<and>
     layer dm K = {} \<and> (\<forall>j. k \<le> j \<and> j < K \<longrightarrow> layer dm j \<noteq> {})"
proof (induction "card (dm_nodes dm - below dm k)" arbitrary: k ts rule: less_induct)
  case less
  from less.prems have dr: "distinct (ready_nodes ts)" and sr: "set (ready_nodes ts) = layer dm k"
    and cnt: "nfinished ts = npassedout ts"
    by (simp_all add: loop_inv_def)
  show ?case
  proof (cases "layer dm k = {}")
    case True
    then have "ready_nodes ts = []" using sr by simp
    then have "\<not> is_active ts" using cnt by (simp add: is_active_def)
    then have "level_loop dm ts k (rows_upto dm k) = Some (Finished (rows_upto dm k))"
      by (subst level_loop.simps) simp
    with True show ?thesis
      by (intro exI [of _ k]) auto
  next
    case False
    then have ne: "ready_nodes ts \<noteq> []" using sr by auto
    then have act: "is_active ts" by (simp add: is_active_def)
    from get_ready_inv [OF less.prems] obtain ts1 where
      g: "get_ready ts = Inr (ready_nodes ts, ts1)" and m1: "mid_inv dm k {} ts1"
      by (elim exE conjE)
    let ?ready = "sort (ready_nodes ts)"
    have rne: "?ready \<noteq> []"
      using ne by (metis length_0_conv length_sort)
    have "{} \<subseteq> layer dm k" "distinct ?ready" "set ?ready = layer dm k - {}"
      using dr sr by simp_all
    from write_level_inv [OF m1 this, of "rows_upto dm k"] obtain ts2 where
      w: "write_level dm k ?ready ts1 (rows_upto dm k) =
           Inr (ts2, rows_upto dm k @ map (\<lambda>n. (k, n, sort (dm_get dm n))) ?ready)"
      and m2: "mid_inv dm k (layer dm k) ts2"
      by (elim exE conjE)
    have "sorted_list_of_set (layer dm k) = ?ready"
      using dr sr by (metis sorted_list_of_set_sort_remdups distinct_remdups_id)
    then have rows: "rows_upto dm k @ map (\<lambda>n. (k, n, sort (dm_get dm n))) ?ready = rows_upto dm (Suc k)"
      by (simp add: rows_upto_def level_rows_def)
    have step: "level_loop dm ts k (rows_upto dm k) = level_loop dm ts2 (Suc k) (rows_upto dm (Suc k))"
      by (subst level_loop.simps) (simp add: act g rne w rows Let_def)
    have l2: "loop_inv dm (Suc k) ts2"
      using m2 by (rule mid_inv_done)
    have "below dm k \<subset> below dm (Suc k)"
      using False below_mono [of dm k] by (auto simp: layer_def)
    then have "dm_nodes dm - below dm (Suc k) \<subset> dm_nodes dm - below dm k"
      using below_nodes [of dm "Suc k"] by auto
    then have "card (dm_nodes dm - below dm (Suc k)) < card (dm_nodes dm - below dm k)"
      by (intro psubset_card_mono) simp_all
    from less.hyps [OF this l2] obtain K where
      K: "K \<ge> Suc k" "level_loop dm ts2 (Suc k) (rows_upto dm (Suc k)) = Some (Finished (rows_upto dm K))"
         "layer dm K = {}" "\<forall>j. Suc k \<le> j \<and> j < K \<longrightarrow> layer dm j \<noteq> {}"
      by (elim exE conjE)
    have "\<forall>j. k \<le> j \<and> j < K \<longrightarrow> layer dm j \<noteq> {}"
    proof (intro allI impI)
      fix j assume "k \<le> j \<and> j < K"
      then consider "j = k" | "Suc k \<le> j \<and> j < K" by linarith
      then show "layer dm j \<noteq> {}"
        using False K(4) by cases auto
    qed
    with K step show ?thesis
      by (intro exI [of _ K]) simp
  qed
qed

lemma wf_dm_distinct_get: "wf_dm dm \<Longrightarrow> distinct (dm_get dm n)"
  by (auto simp: wf_dm_def dm_get_def list_all_iff split: option.splits dest!: map_of_SomeD)

lemma info_of_member:
  "distinct (map fst n2i) \<Longrightarrow> (n, i) \<in> set n2i \<Longrightarrow> info_of n2i n = i"
  by (simp add: info_of_def)

lemma prepare_inv:
  assumes wf: "wf_dm dm" and pr: "prepare (TopologicalSorter dm) = Inr ts"
  shows "loop_inv dm 0 ts"
proof -
  let ?T = "TopologicalSorter dm"
  from TopologicalSorter_props [OF wf] have dk: "distinct (map fst ?T)"
    and keys: "fst ` set ?T = dm_nodes dm"
    and np: "\<And>n. npredecessors (info_of ?T n) = int (length (dm_get dm n))"
    and sc: "\<And>n. set (successors (info_of ?T n)) = {m. n \<in> set (dm_get dm m)}"
    and dsc: "\<And>n. distinct (successors (info_of ?T n))"
    by simp_all
  from pr have ts: "ts = \<lparr>node2info = ?T,
      ready_nodes = map fst (filter (\<lambda>(node, i). npredecessors i = 0) ?T),
      npassedout = 0, nfinished = 0\<rparr>"
    by (auto simp: prepare_def split: cycle_search.splits)
  have base: "base_inv dm ts"
    using dk keys sc dsc by (simp add: base_inv_def ts)
  have len: "int (length (dm_get dm n)) = int (card (set (dm_get dm n)))" for n
    using wf_dm_distinct_get [OF wf, of n] by (simp add: distinct_card)
  have dr: "distinct (ready_nodes ts)"
    using dk by (simp add: ts distinct_map_filter)
  have "set (ready_nodes ts) = {n \<in> dm_nodes dm. dm_get dm n = []}"
  proof -
    have "set (ready_nodes ts) = {n. \<exists>i. (n, i) \<in> set ?T \<and> npredecessors i = 0}"
      by (auto simp: ts intro: rev_image_eqI)
    also have "\<dots> = {n \<in> fst ` set ?T. npredecessors (info_of ?T n) = 0}"
      using info_of_member [OF dk] by (auto intro: rev_image_eqI)
    also have "\<dots> = {n \<in> dm_nodes dm. dm_get dm n = []}"
      by (simp add: keys np)
    finally show ?thesis .
  qed
  moreover have "layer dm 0 = {n \<in> dm_nodes dm. dm_get dm n = []}"
    by (auto simp: layer_iff)
  ultimately have sr: "set (ready_nodes ts) = layer dm 0"
    by (rule trans [OF _ sym])
  show ?thesis
    unfolding loop_inv_def using base dr sr
    by (simp add: ts np len)
qed

lemma frames_inv_mono: "frames_inv S B cur fs \<Longrightarrow> B \<subseteq> B' \<Longrightarrow> frames_inv S B' cur fs"
  by (induction S B cur fs rule: frames_inv.induct) auto

lemma frames_inv_black:
  "frames_inv S B (Some a) fs \<Longrightarrow> frames_inv S (insert a B) None fs"
  by (cases fs) (auto intro: frames_inv_mono)

lemma frames_inv_path:
  "frames_inv S B (Some a) fs \<Longrightarrow> m \<in> set (map fst fs) \<Longrightarrow> (m, a) \<in> {(n, s). s \<in> set (S n)}\<^sup>+"
proof (induction fs arbitrary: a)
  case Nil
  then show ?case by simp
next
  case (Cons f fs)
  obtain n rest where f: "f = (n, rest)" by (cases f)
  from Cons.prems(1) have e: "(n, a) \<in> {(n, s). s \<in> set (S n)}" and r: "frames_inv S B (Some n) fs"
    by (auto simp: f)
  show ?case
  proof (cases "m = n")
    case True
    with e show ?thesis by auto
  next
    case False
    with Cons.prems(2) have "m \<in> set (map fst fs)" by (simp add: f)
    from Cons.IH [OF r this] e show ?thesis
      by (rule trancl_into_trancl)
  qed
qed

lemma closed_ranked_insert:
  assumes cr: "closed_ranked n2i B" and s: "set (successors_of n2i n) \<subseteq> B" and n: "n \<notin> B"
  shows "closed_ranked n2i (insert n B)"
proof -
  from cr obtain f :: "'a \<Rightarrow> nat" where
    cl: "\<forall>b\<in>B. set (successors_of n2i b) \<subseteq> B" and f: "\<forall>x\<in>B. \<forall>y\<in>set (successors_of n2i x). f y < f x"
    by (auto simp: closed_ranked_def)
  define g where "g = f(n := Suc (Max (insert 0 (f ` set (successors_of n2i n)))))"
  have "\<forall>x\<in>insert n B. \<forall>y\<in>set (successors_of n2i x). g y < g x"
  proof (intro ballI)
    fix x y assume x: "x \<in> insert n B" and y: "y \<in> set (successors_of n2i x)"
    show "g y < g x"
    proof (cases "x = n")
      case True
      with y s n have yn: "y \<noteq> n" by auto
      have "f y \<le> Max (insert 0 (f ` set (successors_of n2i n)))"
        using y True by (intro Max_ge) auto
      then show ?thesis
        using yn True by (simp add: g_def)
    next
      case False
      with x have xB: "x \<in> B" by simp
      with cl y have "y \<in> B" by auto
      with n have "y \<noteq> n" by auto
      then show ?thesis
        using f xB y False by (simp add: g_def)
    qed
  qed
  moreover have "\<forall>b\<in>insert n B. set (successors_of n2i b) \<subseteq> insert n B"
    using cl s by auto
  ultimately show ?thesis
    unfolding closed_ranked_def by blast
qed

lemma dfs_post_weaken:
  "dfs_post n2i cur seen r \<Longrightarrow> set seen0 \<subseteq> set seen \<Longrightarrow>
   (\<forall>c. cur0 = Some c \<longrightarrow> c \<in> set seen) \<Longrightarrow> dfs_post n2i cur0 seen0 r"
  by (cases r) (auto simp: dfs_post_def)

lemma find_cycle_from_correct:
  "dfs_inv n2i cur frames seen \<Longrightarrow> dfs_post n2i cur seen (find_cycle_from n2i cur frames seen)"
proof (induction n2i cur frames seen rule: find_cycle_from.induct)
  case (1 n2i node frames seen)
  let ?B = "set seen - set (map fst frames)"
  from "1.prems" have closed: "\<forall>n. set (successors_of n2i n) \<subseteq> fst ` set n2i"
    and ds: "distinct (map fst frames)" and ss: "set (map fst frames) \<subseteq> set seen"
    and sk: "set seen \<subseteq> fst ` set n2i"
    and fi: "frames_inv (successors_of n2i) ?B (Some node) frames"
    and cr: "closed_ranked n2i ?B" and nk: "node \<in> fst ` set n2i"
    by (simp_all add: dfs_inv_def)
  show ?case
  proof (cases "node \<in> set seen")
    case True
    show ?thesis
    proof (cases "node \<in> set (map fst frames)")
      case onstack: True
      from frames_inv_path [OF fi onstack] have "(node, node) \<in> (succ_rel n2i)\<^sup>+"
        by (simp add: succ_rel_def)
      then have "\<not> acyclic (succ_rel n2i)"
        by (auto simp: acyclic_def)
      then show ?thesis
        using True onstack by (simp add: dfs_post_def)
    next
      case False
      then have nb: "node \<in> ?B" using True by simp
      have "frames_inv (successors_of n2i) (insert node ?B) None frames"
        using fi by (rule frames_inv_black)
      then have "frames_inv (successors_of n2i) ?B None frames"
        using nb by (simp add: insert_absorb)
      then have "dfs_inv n2i None frames seen"
        using closed ds ss sk cr by (simp add: dfs_inv_def)
      from "1.IH"(1) [OF True False this]
      have "dfs_post n2i (Some node) seen (find_cycle_from n2i None frames seen)"
        by (rule dfs_post_weaken) (simp_all add: True)
      then show ?thesis
        using True False by simp
    qed
  next
    case False
    from nk obtain info where info: "map_of n2i node = Some info"
      by (cases "map_of n2i node") (auto simp: map_of_eq_None_iff)
    then have sinfo: "successors info = successors_of n2i node"
      by (simp add: successors_of_def info_of_def)
    have nst: "node \<notin> set (map fst frames)"
      using False ss by auto
    have B: "set (node # seen) - set (map fst ((node, successors info) # frames)) = ?B"
      using False nst by auto
    have "frames_inv (successors_of n2i) ?B None ((node, successors info) # frames)"
      using fi by (simp add: sinfo)
    then have "dfs_inv n2i None ((node, successors info) # frames) (node # seen)"
      unfolding dfs_inv_def B using closed ds ss sk cr nk nst by auto
    from "1.IH"(2) [OF False info this]
    have "dfs_post n2i (Some node) seen
        (find_cycle_from n2i None ((node, successors info) # frames) (node # seen))"
      by (rule dfs_post_weaken) auto
    then show ?thesis
      using False info by simp
  qed
next
  case (2 n2i seen)
  then show ?case
    by (simp add: dfs_inv_def dfs_post_def)
next
  case (3 n2i n frames seen)
  let ?B = "set seen - set (map fst ((n, []) # frames))"
  from "3.prems" have closed: "\<forall>n. set (successors_of n2i n) \<subseteq> fst ` set n2i"
    and ds: "distinct (map fst ((n, []) # frames))"
    and ss: "set (map fst ((n, []) # frames)) \<subseteq> set seen"
    and sk: "set seen \<subseteq> fst ` set n2i"
    and fi: "frames_inv (successors_of n2i) ?B None ((n, []) # frames)"
    and cr: "closed_ranked n2i ?B"
    by (simp_all add: dfs_inv_def)
  have B': "set seen - set (map fst frames) = insert n ?B"
    using ds ss by auto
  from fi have sn: "set (successors_of n2i n) \<subseteq> ?B" and fr: "frames_inv (successors_of n2i) ?B (Some n) frames"
    by auto
  have "closed_ranked n2i (insert n ?B)"
    using cr sn by (rule closed_ranked_insert) simp
  moreover have "frames_inv (successors_of n2i) (insert n ?B) None frames"
    using fr by (rule frames_inv_black)
  ultimately have "dfs_inv n2i None frames seen"
    unfolding dfs_inv_def B' using closed ds ss sk by simp
  from "3.IH" [OF this] show ?case
    by simp
next
  case (4 n2i n s ss frames seen)
  let ?B = "set seen - set (map fst ((n, s # ss) # frames))"
  from "4.prems" have closed: "\<forall>n. set (successors_of n2i n) \<subseteq> fst ` set n2i"
    and fi: "frames_inv (successors_of n2i) ?B None ((n, s # ss) # frames)"
    by (simp_all add: dfs_inv_def)
  from fi obtain seen_part where sp: "successors_of n2i n = seen_part @ s # ss" "set seen_part \<subseteq> ?B"
    and fr: "frames_inv (successors_of n2i) ?B (Some n) frames"
    by auto
  have "successors_of n2i n = (seen_part @ [s]) @ ss" "set (seen_part @ [s]) \<subseteq> ?B \<union> set_option (Some s)"
    using sp by auto
  then have e: "\<exists>sp. successors_of n2i n = sp @ ss \<and> set sp \<subseteq> ?B \<union> set_option (Some s)"
    by blast
  have sin: "s \<in> set (successors_of n2i n)"
    using sp by simp
  then have sk: "s \<in> fst ` set n2i"
    using closed by auto
  have "frames_inv (successors_of n2i) ?B (Some s) ((n, ss) # frames)"
    using e sin fr by simp
  then have "dfs_inv n2i (Some s) ((n, ss) # frames) seen"
    using "4.prems" sk by (simp add: dfs_inv_def)
  from "4.IH" [OF this]
  have "dfs_post n2i None seen (find_cycle_from n2i (Some s) ((n, ss) # frames) seen)"
    by (rule dfs_post_weaken) simp_all
  then show ?case
    by (simp only: find_cycle_from.simps)
qed

lemma find_cycle_nodes_correct:
  "\<forall>n. set (successors_of n2i n) \<subseteq> fst ` set n2i \<Longrightarrow> set nodes \<subseteq> fst ` set n2i \<Longrightarrow>
   set seen \<subseteq> fst ` set n2i \<Longrightarrow> closed_ranked n2i (set seen) \<Longrightarrow>
   (case find_cycle_nodes n2i nodes seen of
      Found c \<Rightarrow> \<not> acyclic (succ_rel n2i)
    | Broken e \<Rightarrow> False
    | NotFound seen' \<Rightarrow>
        set seen \<union> set nodes \<subseteq> set seen' \<and> set seen' \<subseteq> fst ` set n2i \<and>
        closed_ranked n2i (set seen'))"
proof (induction nodes arbitrary: seen)
  case Nil
  then show ?case by simp
next
  case (Cons node nodes)
  show ?case
  proof (cases "node \<in> set seen")
    case True
    from Cons.IH [OF Cons.prems(1) _ Cons.prems(3,4)] Cons.prems(2) True show ?thesis
      by (auto split: cycle_search.splits)
  next
    case False
    have "dfs_inv n2i (Some node) [] seen"
      using Cons.prems by (simp add: dfs_inv_def)
    then have post: "dfs_post n2i (Some node) seen (find_cycle_from n2i (Some node) [] seen)"
      by (rule find_cycle_from_correct)
    show ?thesis
    proof (cases "find_cycle_from n2i (Some node) [] seen")
      case (Found c)
      with post False show ?thesis
        by (simp add: dfs_post_def del: find_cycle_from.simps)
    next
      case (Broken e)
      with post show ?thesis
        by (simp add: dfs_post_def del: find_cycle_from.simps)
    next
      case (NotFound seen1)
      with post have s1: "set seen \<subseteq> set seen1" "set seen1 \<subseteq> fst ` set n2i"
        "node \<in> set seen1" "closed_ranked n2i (set seen1)"
        by (simp_all add: dfs_post_def del: find_cycle_from.simps)
      have nodes: "set nodes \<subseteq> fst ` set n2i"
        using Cons.prems(2) by simp
      from Cons.IH [OF Cons.prems(1) nodes s1(2,4)] s1(1,3) show ?thesis
        using False NotFound
        by (auto split: cycle_search.splits simp del: find_cycle_from.simps)
    qed
  qed
qed

lemma successors_of_not_key: "n \<notin> fst ` set n2i \<Longrightarrow> successors_of n2i n = []"
  by (auto simp: successors_of_def info_of_def map_of_eq_None_iff split: option.splits
      dest: map_of_Some_key)

lemma find_cycle_correct:
  assumes closed: "\<forall>n. set (successors_of n2i n) \<subseteq> fst ` set n2i"
  shows "case find_cycle n2i of
           Found c \<Rightarrow> \<not> acyclic (succ_rel n2i)
         | Broken e \<Rightarrow> False
         | NotFound seen \<Rightarrow> acyclic (succ_rel n2i)"
proof -
  have cr: "closed_ranked n2i (set [])"
    by (simp add: closed_ranked_def)
  have "set (map fst n2i) \<subseteq> fst ` set n2i" "set [] \<subseteq> fst ` set n2i"
    by simp_all
  note r = find_cycle_nodes_correct [OF closed this cr]
  show ?thesis
  proof (cases "find_cycle n2i")
    case (NotFound seen)
    with r have all: "set seen = fst ` set n2i" and c: "closed_ranked n2i (set seen)"
      by (auto simp: find_cycle_def)
    from c obtain f :: "'a \<Rightarrow> nat" where
      f: "\<forall>x\<in>set seen. \<forall>y\<in>set (successors_of n2i x). f y < f x"
      by (auto simp: closed_ranked_def)
    have "acyclic (succ_rel n2i)"
    proof (rule acyclicI_order [where f = f])
      fix a b assume "(a, b) \<in> succ_rel n2i"
      then have b: "b \<in> set (successors_of n2i a)" by (simp add: succ_rel_def)
      then have "a \<in> fst ` set n2i"
        using successors_of_not_key [of a n2i] by (cases "a \<in> fst ` set n2i") simp_all
      with f all b show "f b < f a" by auto
    qed
    with NotFound show ?thesis by simp
  next
    case (Found c)
    with r show ?thesis by (simp add: find_cycle_def)
  next
    case (Broken e)
    with r show ?thesis by (simp add: find_cycle_def)
  qed
qed

lemma dm_edges_iff: "wf_dm dm \<Longrightarrow> (m, n) \<in> dm_edges dm \<longleftrightarrow> n \<in> set (dm_get dm m)"
  by (auto simp: dm_edges_def dm_get_def wf_dm_def split: option.splits
      dest!: map_of_SomeD)

lemma succ_rel_TopologicalSorter:
  assumes "wf_dm dm"
  shows "succ_rel (TopologicalSorter dm) = (dm_edges dm)\<inverse>"
    and "\<forall>n. set (successors_of (TopologicalSorter dm) n) \<subseteq> fst ` set (TopologicalSorter dm)"
  using TopologicalSorter_props [OF assms] dm_edges_iff [OF assms]
  by (auto simp: succ_rel_def successors_of_def dm_get_nodes)

lemma prepare_acyclic:
  assumes wf: "wf_dm dm" and ac: "acyclic (dm_edges dm)"
  shows "\<exists>ts. prepare (TopologicalSorter dm) = Inr ts \<and> loop_inv dm 0 ts"
proof -
  from find_cycle_correct [OF succ_rel_TopologicalSorter(2) [OF wf]] ac
  obtain seen where "find_cycle (TopologicalSorter dm) = NotFound seen"
    by (cases "find_cycle (TopologicalSorter dm)")
      (simp_all add: succ_rel_TopologicalSorter(1) [OF wf])
  then obtain ts where p: "prepare (TopologicalSorter dm) = Inr ts"
    by (simp add: prepare_def)
  with prepare_inv [OF wf p] show ?thesis
    by (intro exI [of _ ts]) simp
qed

lemma prepare_cyclic:
  assumes wf: "wf_dm dm" and ac: "\<not> acyclic (dm_edges dm)"
  shows "prepare (TopologicalSorter dm) = Inl CycleError"
proof -
  from find_cycle_correct [OF succ_rel_TopologicalSorter(2) [OF wf]] ac
  obtain c where "find_cycle (TopologicalSorter dm) = Found c"
    by (cases "find_cycle (TopologicalSorter dm)")
      (simp_all add: succ_rel_TopologicalSorter(1) [OF wf])
  then show ?thesis
    by (simp add: prepare_def)
qed

lemma finite_dm_edges [simp]: "finite (dm_edges dm)"
  unfolding dm_edges_def by (rule finite_set)

lemma acyclic_all_below:
  assumes wf: "wf_dm dm" and ac: "acyclic (dm_edges dm)" and empty: "layer dm K = {}"
  shows "below dm K = dm_nodes dm"
proof (rule ccontr)
  assume "below dm K \<noteq> dm_nodes dm"
  then obtain x where x: "x \<in> dm_nodes dm - below dm K"
    using below_nodes [of dm K] by auto
  have "wf ((dm_edges dm)\<inverse>)"
    using finite_dm_edges ac by (rule finite_acyclic_wf_converse)
  from wfE_min [OF this x] obtain z where z: "z \<in> dm_nodes dm - below dm K"
    and min: "\<And>y. (y, z) \<in> (dm_edges dm)\<inverse> \<Longrightarrow> y \<notin> dm_nodes dm - below dm K"
    by blast
  have "set (dm_get dm z) \<subseteq> below dm K"
  proof
    fix d assume d: "d \<in> set (dm_get dm z)"
    then have "(d, z) \<in> (dm_edges dm)\<inverse>"
      by (simp add: dm_edges_iff [OF wf])
    from min [OF this] dm_get_nodes [OF d] show "d \<in> below dm K" by simp
  qed
  with z have "z \<in> layer dm K"
    by (simp add: layer_iff)
  with empty show False by simp
qed

lemma rows_upto_0 [simp]: "rows_upto dm 0 = []"
  by (simp add: rows_upto_def)

lemma level_order_acyclic:
  assumes wf: "wf_dm dm" and ac: "acyclic (dm_edges dm)"
  shows "\<exists>K. level_order dm = Some (Finished (rows_upto dm K)) \<and>
           layer dm K = {} \<and> (\<forall>j<K. layer dm j \<noteq> {}) \<and> below dm K = dm_nodes dm"
proof -
  from prepare_acyclic [OF wf ac] obtain ts where
    p: "prepare (TopologicalSorter dm) = Inr ts" and l: "loop_inv dm 0 ts"
    by (elim exE conjE)
  from level_loop_inv [OF l] obtain K where
    K: "level_loop dm ts 0 (rows_upto dm 0) = Some (Finished (rows_upto dm K))"
       "layer dm K = {}" "\<forall>j. 0 \<le> j \<and> j < K \<longrightarrow> layer dm j \<noteq> {}"
    by (elim exE conjE)
  have "level_order dm = Some (Finished (rows_upto dm K))"
    using K(1) by (simp add: level_order_def p)
  then show ?thesis
    using K(2,3) acyclic_all_below [OF wf ac K(2)] by (intro exI [of _ K]) simp
qed

lemma level_order_cyclic:
  "wf_dm dm \<Longrightarrow> \<not> acyclic (dm_edges dm) \<Longrightarrow> level_order dm = Some (Raised CycleError [])"
  by (simp add: level_order_def prepare_cyclic)

lemma find_SomeD: "find P xs = Some x \<Longrightarrow> P x \<and> x \<in> set xs"
  by (induction xs) (auto split: if_splits)

lemma below_mono_le: "j \<le> k \<Longrightarrow> below dm j \<subseteq> below dm k"
proof (induction k)
  case 0
  then show ?case by simp
next
  case (Suc k)
  then show ?case
    using below_mono [of dm k] by (cases "j = Suc k") auto
qed

lemma layer_disjoint: "n \<in> layer dm j \<Longrightarrow> n \<in> layer dm k \<Longrightarrow> j = k"
proof (rule ccontr)
  assume j: "n \<in> layer dm j" and k: "n \<in> layer dm k" and ne: "j \<noteq> k"
  have *: False if "a < b" "n \<in> layer dm a" "n \<in> layer dm b" for a b
  proof -
    from that have "n \<in> below dm (Suc a)" "n \<notin> below dm b"
      by (simp_all add: layer_def)
    moreover have "below dm (Suc a) \<subseteq> below dm b"
      using that(1) by (intro below_mono_le) simp
    ultimately show False by auto
  qed
  from ne consider "j < k" | "k < j" by linarith
  then show False
    using * j k by cases blast+
qed

lemma below_layers: "below dm K = (\<Union>l<K. layer dm l)"
proof (induction K)
  case 0
  then show ?case by simp
next
  case (Suc K)
  have "{..<Suc K} = insert K {..<K}" by auto
  then show ?case
    using Suc by (simp add: below_Suc_layer Un_commute)
qed

lemma finite_layer [simp]: "finite (layer dm k)"
  using finite_subset [OF layer_nodes finite_dm_nodes] .

lemma set_level_rows:
  "set (level_rows dm k) = {(l, n, ds). l = k \<and> n \<in> layer dm k \<and> ds = sort (dm_get dm n)}"
  by (auto simp: level_rows_def)

lemma set_rows_upto:
  "set (rows_upto dm K) = {(l, n, ds). l < K \<and> n \<in> layer dm l \<and> ds = sort (dm_get dm n)}"
  by (auto simp: rows_upto_def set_level_rows)

lemma level_of_rows_upto:
  "level_of (rows_upto dm K) n = Some l \<longleftrightarrow> l < K \<and> n \<in> layer dm l"
proof
  assume "level_of (rows_upto dm K) n = Some l"
  then obtain r where "find (\<lambda>(l, m, ds). m = n) (rows_upto dm K) = Some r" "fst r = l"
    by (auto simp: level_of_def)
  then have "r \<in> set (rows_upto dm K)" "fst (snd r) = n" "fst r = l"
    by (auto dest!: find_SomeD)
  then show "l < K \<and> n \<in> layer dm l"
    by (auto simp: set_rows_upto)
next
  assume a: "l < K \<and> n \<in> layer dm l"
  then have "(l, n, sort (dm_get dm n)) \<in> set (rows_upto dm K)"
    by (simp add: set_rows_upto)
  then have "find (\<lambda>(l, m, ds). m = n) (rows_upto dm K) \<noteq> None"
    by (auto simp: find_None_iff)
  then obtain r where r: "find (\<lambda>(l, m, ds). m = n) (rows_upto dm K) = Some r"
    by auto
  then have "r \<in> set (rows_upto dm K)" "fst (snd r) = n"
    by (auto dest!: find_SomeD)
  then have "n \<in> layer dm (fst r)"
    by (auto simp: set_rows_upto)
  with a have "fst r = l"
    by (auto dest: layer_disjoint)
  with r show "level_of (rows_upto dm K) n = Some l"
    by (simp add: level_of_def)
qed

lemma sorted_wrt_level_rows: "sorted_wrt row_before (level_rows dm k)"
proof -
  have "sorted_wrt (<) (sorted_list_of_set (layer dm k))"
    by (simp add: strict_sorted_iff [symmetric])
  then show ?thesis
    unfolding level_rows_def sorted_wrt_map
    by (rule sorted_wrt_mono_rel [rotated]) (simp add: row_before_def)
qed

lemma sorted_wrt_rows_upto: "sorted_wrt row_before (rows_upto dm K)"
proof (induction K)
  case 0
  then show ?case by simp
next
  case (Suc K)
  have eq: "rows_upto dm (Suc K) = rows_upto dm K @ level_rows dm K"
    by (simp add: rows_upto_def)
  have cross: "\<forall>x\<in>set (rows_upto dm K). \<forall>y\<in>set (level_rows dm K). row_before x y"
    by (auto simp: set_rows_upto set_level_rows row_before_def)
  show ?case
    unfolding eq sorted_wrt_append using Suc sorted_wrt_level_rows [of dm K] cross by simp
qed

lemma distinct_names_rows_upto: "distinct (map (fst \<circ> snd) (rows_upto dm K))"
proof -
  have "r \<noteq> r'" if "row_before r r'" for r r' :: "'a row"
    using that by (auto simp: row_before_def)
  have irr: "fst (snd r) \<noteq> fst (snd r')"
    if "row_before r r'" "r \<in> set (rows_upto dm K)" "r' \<in> set (rows_upto dm K)" for r r'
    using that by (auto simp: row_before_def set_rows_upto dest: layer_disjoint)
  have "sorted_wrt (\<lambda>r r'. fst (snd r) \<noteq> fst (snd r')) (rows_upto dm K)"
    using sorted_wrt_rows_upto [of dm K]
    by (rule sorted_wrt_mono_rel [rotated]) (use irr in auto)
  then show ?thesis
    by (simp add: distinct_map distinct_conv_nth sorted_wrt_iff_nth_less inj_on_def)
       (metis in_set_conv_nth linorder_neqE_nat)
qed

lemma layer_pos_dep:
  assumes "n \<in> layer dm (Suc j)"
  shows "\<exists>d\<in>set (dm_get dm n). d \<in> layer dm j"
proof -
  from assms have n: "n \<in> dm_nodes dm" "n \<notin> below dm (Suc j)"
    and d: "set (dm_get dm n) \<subseteq> below dm (Suc j)"
    by (simp_all add: layer_iff)
  from n obtain d where "d \<in> set (dm_get dm n)" "d \<notin> below dm j"
    by (auto simp: below_Suc)
  with d show ?thesis
    by (auto simp: layer_def)
qed

lemma layer_deps_lower:
  assumes "n \<in> layer dm l" "d \<in> set (dm_get dm n)"
  shows "\<exists>l'<l. d \<in> layer dm l'"
  using layer_deps [OF assms(1)] assms(2) by (auto simp: below_layers)

lemma chain_bound:
  "dep_chain dm (n # ns) \<Longrightarrow> n \<in> layer dm l \<Longrightarrow> length ns \<le> l"
proof (induction ns arbitrary: n l)
  case Nil
  then show ?case by simp
next
  case (Cons m ns)
  then have m: "m \<in> set (dm_get dm n)" and c: "dep_chain dm (m # ns)" by simp_all
  from layer_deps_lower [OF Cons.prems(2) m] obtain l' where "l' < l" "m \<in> layer dm l'"
    by auto
  with Cons.IH [OF c] show ?case by fastforce
qed

lemma chain_exists:
  "n \<in> layer dm l \<Longrightarrow> \<exists>ns. dep_chain dm (n # ns) \<and> length ns = l"
proof (induction l arbitrary: n)
  case 0
  have "dep_chain dm [n] \<and> length ([] :: 'a list) = 0" by simp
  then show ?case by blast
next
  case (Suc l)
  from layer_pos_dep [OF Suc.prems] obtain d where d: "d \<in> set (dm_get dm n)" "d \<in> layer dm l"
    by auto
  from Suc.IH [OF d(2)] obtain ns where "dep_chain dm (d # ns)" "length ns = l"
    by auto
  with d(1) have "dep_chain dm (n # d # ns) \<and> length (d # ns) = Suc l" by simp
  then show ?case by blast
qed

lemma Max_dep_levels:
  assumes n: "n \<in> layer dm l" and ne: "dm_get dm n \<noteq> []" and lK: "l < K"
  shows "l = Suc (Max {l'. \<exists>d\<in>set (dm_get dm n). l' < K \<and> d \<in> layer dm l'})"
proof -
  let ?L = "{l'. \<exists>d\<in>set (dm_get dm n). l' < K \<and> d \<in> layer dm l'}"
  have fin: "finite ?L" by simp
  have lt: "l' < l" if "l' \<in> ?L" for l'
  proof -
    from that obtain d where d: "d \<in> set (dm_get dm n)" "d \<in> layer dm l'" by auto
    from layer_deps_lower [OF n d(1)] d(2) show ?thesis
      by (auto dest: layer_disjoint)
  qed
  have "l \<noteq> 0"
  proof
    assume "l = 0"
    with n have "set (dm_get dm n) \<subseteq> {}" by (auto dest: layer_deps)
    with ne show False by simp
  qed
  then obtain j where j: "l = Suc j" by (cases l) auto
  from layer_pos_dep [of n dm j] n j obtain d where "d \<in> set (dm_get dm n)" "d \<in> layer dm j"
    by auto
  then have jin: "j \<in> ?L" using lK j by auto
  have "Max ?L = j"
  proof (rule Max_eqI [OF fin])
    show "j \<in> ?L" by (rule jin)
    fix y assume "y \<in> ?L"
    from lt [OF this] j show "y \<le> j" by simp
  qed
  with j show ?thesis by simp
qed

lemma acyclic_empty: "acyclic {}"
  by (simp add: acyclic_def)

lemma leveled_acyclic:
  assumes wf: "wf_dm dm" and ac: "acyclic (dm_edges dm)"
  obtains K where "level_order dm = Some (Finished (rows_upto dm K))"
    and "layer dm K = {}" and "\<forall>j<K. layer dm j \<noteq> {}" and "dm_nodes dm = (\<Union>l<K. layer dm l)"
  using level_order_acyclic [OF wf ac] by (auto simp: below_layers)

lemma dm_nodes_alt:
  "wf_dm dm \<Longrightarrow> dm_nodes dm = set (map fst dm) \<union> {d. \<exists>n\<in>set (map fst dm). d \<in> set (dm_get dm n)}"
proof -
  assume wf: "wf_dm dm"
  have "d \<in> set (concat (map snd dm)) \<longleftrightarrow> (\<exists>n\<in>set (map fst dm). d \<in> set (dm_get dm n))" for d
  proof
    assume "d \<in> set (concat (map snd dm))"
    then obtain n ds where "(n, ds) \<in> set dm" "d \<in> set ds" by auto
    then have "(n, d) \<in> dm_edges dm" by (force simp: dm_edges_def)
    then have "d \<in> set (dm_get dm n)" by (simp add: dm_edges_iff [OF wf])
    moreover have "n \<in> set (map fst dm)" using \<open>(n, ds) \<in> set dm\<close> by force
    ultimately show "\<exists>n\<in>set (map fst dm). d \<in> set (dm_get dm n)" by blast
  next
    assume "\<exists>n\<in>set (map fst dm). d \<in> set (dm_get dm n)"
    then obtain n where "d \<in> set (dm_get dm n)" by blast
    then have "d \<in> dm_nodes dm" by (simp add: dm_get_nodes)
    moreover have "d \<notin> set (map fst dm) \<Longrightarrow> d \<in> set (concat (map snd dm))"
      using calculation by (simp add: dm_nodes_def)
    moreover have "(n, d) \<in> dm_edges dm"
      using \<open>d \<in> set (dm_get dm n)\<close> by (simp add: dm_edges_iff [OF wf])
    then show "d \<in> set (concat (map snd dm))"
      by (force simp: dm_edges_def)
  qed
  then show ?thesis
    by (auto simp: dm_nodes_def)
qed

lemma same_graph_get:
  assumes "same_graph dm1 dm2"
  shows "set (dm_get dm1 n) = set (dm_get dm2 n)"
proof (cases "n \<in> set (map fst dm1)")
  case True
  with assms show ?thesis unfolding same_graph_def by blast
next
  case False
  with assms have "n \<notin> fst ` set dm1" "n \<notin> fst ` set dm2"
    by (auto simp: same_graph_def)
  then show ?thesis by (simp add: dm_get_not_key)
qed

lemma same_graph_sort:
  assumes "same_graph dm1 dm2" "wf_dm dm1" "wf_dm dm2"
  shows "sort (dm_get dm1 n) = sort (dm_get dm2 n)"
proof (rule sorted_distinct_set_unique)
  show "set (sort (dm_get dm1 n)) = set (sort (dm_get dm2 n))"
    using same_graph_get [OF assms(1)] by simp
qed (simp_all add: wf_dm_distinct_get assms)

lemma same_graph_nodes:
  assumes "same_graph dm1 dm2" "wf_dm dm1" "wf_dm dm2"
  shows "dm_nodes dm1 = dm_nodes dm2"
proof -
  have "set (map fst dm1) = set (map fst dm2)"
    using assms(1) by (simp add: same_graph_def)
  then show ?thesis
    unfolding dm_nodes_alt [OF assms(2)] dm_nodes_alt [OF assms(3)]
    using same_graph_get [OF assms(1)] by simp
qed

lemma same_graph_below:
  assumes "same_graph dm1 dm2" "wf_dm dm1" "wf_dm dm2"
  shows "below dm1 k = below dm2 k"
proof (induction k)
  case 0
  then show ?case by simp
next
  case (Suc k)
  then show ?case
    by (simp add: below_Suc same_graph_nodes [OF assms] same_graph_get [OF assms(1)])
qed

lemma same_graph_layer:
  assumes "same_graph dm1 dm2" "wf_dm dm1" "wf_dm dm2"
  shows "layer dm1 k = layer dm2 k"
  by (simp add: layer_def same_graph_below [OF assms])

lemma same_graph_rows:
  assumes "same_graph dm1 dm2" "wf_dm dm1" "wf_dm dm2"
  shows "rows_upto dm1 K = rows_upto dm2 K"
proof -
  have "level_rows dm1 = level_rows dm2"
    by (simp add: fun_eq_iff level_rows_def same_graph_layer [OF assms] same_graph_sort [OF assms])
  then show ?thesis
    by (simp add: rows_upto_def)
qed

lemma same_graph_edges:
  assumes "same_graph dm1 dm2" "wf_dm dm1" "wf_dm dm2"
  shows "dm_edges dm1 = dm_edges dm2"
  using same_graph_get [OF assms(1)] by (auto simp: dm_edges_iff assms(2,3))

lemma set_names_rows_upto: "set (map (fst \<circ> snd) (rows_upto dm K)) = (\<Union>l<K. layer dm l)"
  by (force simp: set_rows_upto)

lemma cycle_message_unreachable:
  assumes "wf_dm dm"
  shows "level_order dm \<noteq> Some (CycleReported rows)"
proof (cases "acyclic (dm_edges dm)")
  case True
  from level_order_acyclic [OF assms True] obtain K where
    "level_order dm = Some (Finished (rows_upto dm K))"
    by (elim exE conjE)
  then show ?thesis by simp
next
  case False
  with assms have "level_order dm = Some (Raised CycleError [])"
    by (rule level_order_cyclic)
  then show ?thesis by simp
qed

lemma leveled_nodes_of_graph:
  assumes wf: "wf_dm dm" and ac: "acyclic (dm_edges dm)"
  shows "\<exists>rows. level_order dm = Some (Finished rows) \<and>
     distinct (map (fst \<circ> snd) rows) \<and>
     set (map (fst \<circ> snd) rows) = set (map fst dm) \<union> set (concat (map snd dm)) \<and>
     (\<forall>n\<in>set (concat (map snd dm)). dm_get dm n = [] \<longrightarrow> (0, n, []) \<in> set rows)"
proof -
  from wf ac obtain K where K: "level_order dm = Some (Finished (rows_upto dm K))"
    and nodes: "dm_nodes dm = (\<Union>l<K. layer dm l)"
    by (rule leveled_acyclic)
  have "(0, n, []) \<in> set (rows_upto dm K)"
    if n: "n \<in> set (concat (map snd dm))" and e: "dm_get dm n = []" for n
  proof -
    from n have "n \<in> dm_nodes dm" by (simp add: dm_nodes_def)
    with nodes obtain l where l: "l < K" "n \<in> layer dm l" by auto
    have "l = 0"
    proof (cases l)
      case (Suc j)
      with layer_pos_dep [of n dm j] l(2) e show ?thesis by simp
    qed simp
    with l e show ?thesis by (simp add: set_rows_upto)
  qed
  moreover have "set (map (fst \<circ> snd) (rows_upto dm K)) =
      set (map fst dm) \<union> set (concat (map snd dm))"
    unfolding set_names_rows_upto nodes [symmetric] by (simp only: dm_nodes_def)
  ultimately show ?thesis
    using K distinct_names_rows_upto [of dm K]
    by (intro exI [of _ "rows_upto dm K"]) blast
qed

lemma sort_eq_Nil_iff [simp]: "sort xs = [] \<longleftrightarrow> xs = []"
  by (metis length_0_conv length_sort)

lemma name_in_tree_names [simp]: "name t \<in> tree_names t"
  by (cases t) simp

lemma tree_of_stable:
  "n \<in> below dm k \<Longrightarrow> k \<le> j \<Longrightarrow> tree_of j dm n = tree_of k dm n"
proof (induction k arbitrary: n j)
  case 0
  then show ?case by simp
next
  case (Suc k)
  then obtain j' where j: "j = Suc j'" "k \<le> j'" by (cases j) auto
  from Suc.prems(1) have "set (dm_get dm n) \<subseteq> below dm k"
    by (simp add: below_Suc)
  then have "map (tree_of j' dm) (sort (dm_get dm n)) = map (tree_of k dm) (sort (dm_get dm n))"
    using Suc.IH j(2) by (intro map_cong) auto
  then show ?case
    by (simp add: j Let_def)
qed

lemma tree_of_unique:
  assumes "n \<in> below dm k" "n \<in> below dm k'"
  shows "tree_of k dm n = tree_of k' dm n"
proof (cases "k \<le> k'")
  case True
  from tree_of_stable [OF assms(1) True] show ?thesis by simp
next
  case False
  then have "k' \<le> k" by simp
  from tree_of_stable [OF assms(2) this] show ?thesis by simp
qed

lemma memo_ok_update:
  "memo_ok dm memo \<Longrightarrow> n \<in> below dm k \<Longrightarrow> memo_ok dm (AList.update n (tree_of k dm n) memo)"
  unfolding memo_ok_def by (auto simp: update_conv')

lemma build_nodes_from_node:
  assumes node: "\<And>memo n k. memo_ok dm memo \<Longrightarrow> n \<in> below dm k \<Longrightarrow> k \<le> limit \<Longrightarrow>
      \<exists>memo'. build_node limit dm memo n = Inr (tree_of k dm n, memo') \<and> memo_ok dm memo'"
  shows "memo_ok dm memo \<Longrightarrow> set ds \<subseteq> below dm k \<Longrightarrow> k \<le> limit \<Longrightarrow>
      \<exists>memo'. build_nodes limit dm memo ds = Inr (map (tree_of k dm) ds, memo') \<and> memo_ok dm memo'"
proof (induction ds arbitrary: memo)
  case Nil
  then show ?case by simp
next
  case (Cons d ds)
  from Cons.prems have d: "d \<in> below dm k" and ds: "set ds \<subseteq> below dm k" by auto
  from node [OF Cons.prems(1) d Cons.prems(3)] obtain memo1 where
    m1: "build_node limit dm memo d = Inr (tree_of k dm d, memo1)" "memo_ok dm memo1"
    by (elim exE conjE)
  from Cons.IH [OF m1(2) ds Cons.prems(3)] obtain memo2 where
    m2: "build_nodes limit dm memo1 ds = Inr (map (tree_of k dm) ds, memo2)" "memo_ok dm memo2"
    by (elim exE conjE)
  show ?case
    using m1 m2 by (intro exI [of _ memo2]) simp
qed

lemma build_node_correct:
  "memo_ok dm memo \<Longrightarrow> n \<in> below dm k \<Longrightarrow> k \<le> limit \<Longrightarrow>
     \<exists>memo'. build_node limit dm memo n = Inr (tree_of k dm n, memo') \<and> memo_ok dm memo'"
proof (induction limit arbitrary: memo n k)
  case 0
  then show ?case by simp
next
  case (Suc limit)
  show ?case
  proof (cases "map_of memo n")
    case (Some t)
    with Suc.prems(1) obtain k' where "n \<in> below dm k'" "t = tree_of k' dm n"
      unfolding memo_ok_def by blast
    with tree_of_unique [OF Suc.prems(2) this(1)] have "t = tree_of k dm n" by simp
    with Some Suc.prems(1) show ?thesis
      by (intro exI [of _ memo]) simp
  next
    case None
    from Suc.prems(2) obtain k' where k: "k = Suc k'" by (cases k) auto
    with Suc.prems have deps: "set (sort (dm_get dm n)) \<subseteq> below dm k'" and le: "k' \<le> limit"
      by (simp_all add: below_Suc)
    show ?thesis
    proof (cases "sort (dm_get dm n) = []")
      case True
      then have t: "tree_of k dm n = Node n None"
        by (simp add: k)
      have "memo_ok dm (AList.update n (tree_of k dm n) memo)"
        using Suc.prems(1,2) by (rule memo_ok_update)
      then show ?thesis
        using None True unfolding t
        by (intro exI [of _ "AList.update n (Node n None) memo"]) (simp add: Let_def)
    next
      case False
      have "\<exists>memo1. build_nodes limit dm memo (sort (dm_get dm n)) =
               Inr (map (tree_of k' dm) (sort (dm_get dm n)), memo1) \<and> memo_ok dm memo1"
      proof (rule build_nodes_from_node [OF _ Suc.prems(1) deps le])
        fix memo0 n0 k0
        assume "memo_ok dm memo0" "n0 \<in> below dm k0" "k0 \<le> limit"
        then show "\<exists>memo'. build_node limit dm memo0 n0 = Inr (tree_of k0 dm n0, memo') \<and>
            memo_ok dm memo'"
          by (rule Suc.IH)
      qed
      then obtain memo1 where
        m1: "build_nodes limit dm memo (sort (dm_get dm n)) =
               Inr (map (tree_of k' dm) (sort (dm_get dm n)), memo1)" "memo_ok dm memo1"
        by (elim exE conjE)
      have t: "tree_of k dm n = Node n (Some (map (tree_of k' dm) (sort (dm_get dm n))))"
        using False by (simp add: k Let_def)
      have "memo_ok dm (AList.update n (tree_of k dm n) memo1)"
        using m1(2) Suc.prems(2) by (rule memo_ok_update)
      then show ?thesis
        using None False m1(1) unfolding t
        by (intro exI [of _ "AList.update n
              (Node n (Some (map (tree_of k' dm) (sort (dm_get dm n))))) memo1"])
           (simp add: Let_def)
    qed
  qed
qed

lemma build_nodes_correct:
  "memo_ok dm memo \<Longrightarrow> set ds \<subseteq> below dm k \<Longrightarrow> k \<le> limit \<Longrightarrow>
      \<exists>memo'. build_nodes limit dm memo ds = Inr (map (tree_of k dm) ds, memo') \<and> memo_ok dm memo'"
  by (rule build_nodes_from_node [OF build_node_correct])

lemma name_tree_of [simp]: "name (tree_of k dm n) = n"
  by (cases k) (simp_all add: Let_def)

lemma tree_ok_tree_of: "n \<in> below dm k \<Longrightarrow> tree_ok dm (tree_of k dm n)"
proof (induction k arbitrary: n)
  case 0
  then show ?case by simp
next
  case (Suc k)
  then have "set (dm_get dm n) \<subseteq> below dm k"
    by (simp add: below_Suc)
  with Suc.IH show ?case
    by (auto simp: Let_def comp_def)
qed

lemma tree_names_closed:
  "tree_ok dm t \<Longrightarrow> y \<in> tree_names t \<Longrightarrow> x \<in> set (dm_get dm y) \<Longrightarrow> x \<in> tree_names t"
proof (induction dm t rule: tree_ok.induct)
  case (1 dm n cs)
  show ?case
  proof (cases cs)
    case None
    with "1.prems" show ?thesis by auto
  next
    case (Some ts)
    with "1.prems"(1) have names: "map name ts = sort (dm_get dm n)"
      and ok: "\<forall>t\<in>set ts. tree_ok dm t" by simp_all
    show ?thesis
    proof (cases "y = n")
      case True
      with "1.prems"(3) have "x \<in> set (map name ts)" by (simp add: names)
      then obtain t where t: "t \<in> set ts" "name t = x" by auto
      then have "x \<in> tree_names t" using name_in_tree_names [of t] by simp
      with t(1) Some show ?thesis by auto
    next
      case False
      with "1.prems"(2) Some obtain t where t: "t \<in> set ts" "y \<in> tree_names t" by auto
      from "1.IH" [OF Some t(1) _ t(2) "1.prems"(3)] ok t(1) have "x \<in> tree_names t" by simp
      with t(1) Some show ?thesis by auto
    qed
  qed
qed

lemma layers_card: "\<forall>j<K. layer dm j \<noteq> {} \<Longrightarrow> K \<le> card (below dm K)"
proof (induction K)
  case 0
  then show ?case by simp
next
  case (Suc K)
  then have IH: "K \<le> card (below dm K)" and ne: "layer dm K \<noteq> {}" by auto
  have "below dm K \<inter> layer dm K = {}"
    by (auto simp: layer_def)
  then have "card (below dm (Suc K)) = card (below dm K) + card (layer dm K)"
    unfolding below_Suc_layer by (intro card_Un_disjoint) simp_all
  moreover have "card (layer dm K) > 0"
    using ne by (simp add: card_gt_0_iff)
  ultimately show ?case
    using IH by linarith
qed

lemma levels_bounded:
  assumes "\<forall>j<K. layer dm j \<noteq> {}"
  shows "K \<le> card (dm_nodes dm)"
proof -
  have "card (below dm K) \<le> card (dm_nodes dm)"
    using below_nodes by (intro card_mono) simp_all
  with layers_card [OF assms] show ?thesis by linarith
qed

lemma set_root_nodes:
  "set (root_nodes dm) = {k \<in> set (map fst dm). k \<notin> set (concat (map snd dm))}"
  by (auto simp: root_nodes_def Let_def)

lemma distinct_root_nodes: "wf_dm dm \<Longrightarrow> distinct (root_nodes dm)"
  by (simp add: root_nodes_def wf_dm_def Let_def)

lemma in_targets_iff:
  "wf_dm dm \<Longrightarrow> k \<in> set (concat (map snd dm)) \<longleftrightarrow> (\<exists>n. k \<in> set (dm_get dm n))"
proof -
  assume wf: "wf_dm dm"
  have "k \<in> set (concat (map snd dm)) \<longleftrightarrow> (\<exists>n. (n, k) \<in> dm_edges dm)"
    by (force simp: dm_edges_def)
  then show ?thesis
    by (simp add: dm_edges_iff [OF wf])
qed

lemma json_tree_acyclic:
  assumes wf: "wf_dm dm" and ac: "acyclic (dm_edges dm)" and lim: "card (dm_nodes dm) \<le> limit"
  shows "\<exists>K. json_tree limit dm = Inr (map (tree_of K dm) (sort (root_nodes dm))) \<and>
     below dm K = dm_nodes dm"
proof -
  from level_order_acyclic [OF wf ac] obtain K where
    K: "\<forall>j<K. layer dm j \<noteq> {}" "below dm K = dm_nodes dm"
    by (elim exE conjE)
  have le: "K \<le> limit"
    using levels_bounded [OF K(1)] lim by linarith
  have "set (sort (root_nodes dm)) \<subseteq> below dm K"
    unfolding K(2) by (auto simp: set_root_nodes dm_nodes_def)
  moreover have "memo_ok dm []"
    by (simp add: memo_ok_def)
  ultimately obtain memo where
    "build_nodes limit dm [] (sort (root_nodes dm)) =
       Inr (map (tree_of K dm) (sort (root_nodes dm)), memo)"
    using build_nodes_correct [OF _ _ le] by blast
  then have "json_tree limit dm = Inr (map (tree_of K dm) (sort (root_nodes dm)))"
    by (simp add: json_tree_def)
  with K(2) show ?thesis by blast
qed

lemma distinct_set_add: "distinct xs \<Longrightarrow> distinct (set_add xs x)"
  by (simp add: set_add_def)

lemma wf_dm_add: "wf_dm dm \<Longrightarrow> wf_dm (dm_add dm r d)"
proof -
  assume wf: "wf_dm dm"
  then have d: "distinct (set_add (dm_get dm r) d)"
    by (intro distinct_set_add wf_dm_distinct_get)
  have mem: "(n, ds) \<in> set (AList.update r v dm) \<Longrightarrow> (n, ds) \<in> set dm \<or> (n, ds) = (r, v)"
    for n ds v
    by (induction dm) (auto split: if_splits)
  have "distinct ds" if "(n, ds) \<in> set (AList.update r (set_add (dm_get dm r) d) dm)" for n ds
  proof -
    from mem [OF that] consider "(n, ds) \<in> set dm" | "ds = set_add (dm_get dm r) d" by auto
    then show ?thesis
    proof cases
      case 1
      with wf show ?thesis by (auto simp: wf_dm_def list_all_iff)
    next
      case 2
      with d show ?thesis by simp
    qed
  qed
  moreover have "distinct (map fst (AList.update r (set_add (dm_get dm r) d) dm))"
    using wf by (simp add: wf_dm_def distinct_update)
  ultimately show ?thesis
    unfolding wf_dm_def dm_add_def list_all_iff by auto
qed

lemma wf_add_dep: "wf_dm dm \<Longrightarrow> wf_dm (add_dep m r d dm)"
  by (simp add: add_dep_def wf_dm_add)

lemma wf_fold_add_dep: "wf_dm dm \<Longrightarrow> wf_dm (fold (add_dep m r) raw dm)"
  by (induction raw arbitrary: dm) (simp_all add: wf_add_dep)

lemma wf_build: "wf_dm (build_dependency_map file_data type_to_resource_map)"
proof -
  have "wf_dm dm \<Longrightarrow>
      wf_dm (fold (\<lambda>(resource, raw_deps) dm.
         fold (add_dep type_to_resource_map resource) raw_deps dm) fd dm)" for fd dm
    by (induction fd arbitrary: dm) (auto simp: wf_fold_add_dep)
  moreover have "wf_dm ([] :: (pystr \<times> pystr list) list)"
    by (simp add: wf_dm_def)
  ultimately show ?thesis
    unfolding build_dependency_map_def by blast
qed

lemma write_outputs_cyclic:
  "wf_dm dm \<Longrightarrow> \<not> acyclic (dm_edges dm) \<Longrightarrow> write_outputs limit dm = Some (Inl (CycleError, []))"
  by (simp add: write_outputs_def level_order_cyclic)

lemma write_outputs_total:
  assumes "wf_dm dm"
  shows "\<exists>r. write_outputs limit dm = Some r"
proof (cases "acyclic (dm_edges dm)")
  case True
  from level_order_acyclic [OF assms True] obtain K where
    "level_order dm = Some (Finished (rows_upto dm K))"
    by (elim exE conjE)
  then show ?thesis
    by (cases "json_tree limit dm") (simp_all add: write_outputs_def)
next
  case False
  with assms show ?thesis by (simp add: write_outputs_cyclic)
qed

lemma write_outputs_acyclic:
  assumes wf: "wf_dm dm" and ac: "acyclic (dm_edges dm)" and lim: "card (dm_nodes dm) \<le> limit"
  shows "\<exists>K. write_outputs limit dm =
      Some (Inr \<lparr>csv_rows = rows_upto dm K, cycle_reported = False,
                  trees = map (tree_of K dm) (sort (root_nodes dm))\<rparr>) \<and>
      below dm K = dm_nodes dm"
proof -
  from level_order_acyclic [OF wf ac] obtain K where
    K: "level_order dm = Some (Finished (rows_upto dm K))" "below dm K = dm_nodes dm"
    by (elim exE conjE)
  from json_tree_acyclic [OF wf ac lim] obtain K' where
    K': "json_tree limit dm = Inr (map (tree_of K' dm) (sort (root_nodes dm)))"
      "below dm K' = dm_nodes dm"
    by (elim exE conjE)
  have "map (tree_of K' dm) (sort (root_nodes dm)) = map (tree_of K dm) (sort (root_nodes dm))"
  proof (rule map_cong [OF refl])
    fix r assume "r \<in> set (sort (root_nodes dm))"
    then have "r \<in> dm_nodes dm" by (auto simp: set_root_nodes dm_nodes_def)
    then show "tree_of K' dm r = tree_of K dm r"
      using K(2) K'(2) by (intro tree_of_unique) simp_all
  qed
  with K K' show ?thesis
    by (intro exI [of _ K]) (simp add: write_outputs_def)
qed

lemma roots_of_graph:
  assumes wf: "wf_dm dm" and ac: "acyclic (dm_edges dm)" and lim: "card (dm_nodes dm) \<le> limit"
  shows "\<exists>ts. json_tree limit dm = Inr ts \<and>
     set (map name ts) = {k \<in> set (map fst dm). \<forall>n. k \<notin> set (dm_get dm n)} \<and>
     sorted (map name ts) \<and> distinct (map name ts)"
proof -
  from json_tree_acyclic [OF wf ac lim] obtain K where
    K: "json_tree limit dm = Inr (map (tree_of K dm) (sort (root_nodes dm)))"
    by (elim exE conjE)
  let ?ts = "map (tree_of K dm) (sort (root_nodes dm))"
  have names: "map name ?ts = sort (root_nodes dm)"
    by (simp add: comp_def)
  have "set (sort (root_nodes dm)) = {k \<in> set (map fst dm). \<forall>n. k \<notin> set (dm_get dm n)}"
    using in_targets_iff [OF wf] by (auto simp: set_root_nodes)
  then have s: "set (map name ?ts) = {k \<in> set (map fst dm). \<forall>n. k \<notin> set (dm_get dm n)}"
    by (simp only: names)
  have "sorted (sort (root_nodes dm))" "distinct (sort (root_nodes dm))"
    using distinct_root_nodes [OF wf] by simp_all
  then have o: "sorted (map name ?ts)" "distinct (map name ?ts)"
    by (simp_all only: names)
  from K s o show ?thesis
    by (intro exI [of _ ?ts] conjI)
qed

lemma set_update_cases:
  "(n, ds) \<in> set (AList.update r v dm) \<Longrightarrow> (n, ds) \<in> set dm \<or> (n, ds) = (r, v)"
  by (induction dm) (auto split: if_splits)

lemma set_add_nonempty: "set_add xs x \<noteq> []"
  by (auto simp: set_add_def)

lemma nonempty_dm_add:
  "\<forall>(k, ds)\<in>set dm. ds \<noteq> [] \<Longrightarrow> \<forall>(k, ds)\<in>set (dm_add dm r d). ds \<noteq> []"
  unfolding dm_add_def using set_add_nonempty [of "dm_get dm r" d]
  by (auto dest!: set_update_cases)

lemma nonempty_add_dep:
  "\<forall>(k, ds)\<in>set dm. ds \<noteq> [] \<Longrightarrow> \<forall>(k, ds)\<in>set (add_dep m r d dm). ds \<noteq> []"
  unfolding add_dep_def using nonempty_dm_add [of dm r d] by simp

lemma nonempty_fold_add_dep:
  "\<forall>(k, ds)\<in>set dm. ds \<noteq> [] \<Longrightarrow> \<forall>(k, ds)\<in>set (fold (add_dep m r) raw dm). ds \<noteq> []"
proof (induction raw arbitrary: dm)
  case Nil
  then show ?case by simp
next
  case (Cons d raw)
  from Cons.IH [OF nonempty_add_dep [OF Cons.prems]] show ?case by simp
qed

lemma nonempty_build:
  "\<forall>(k, ds)\<in>set (build_dependency_map file_data type_to_resource_map). ds \<noteq> []"
proof -
  have "\<forall>(k, ds)\<in>set dm. ds \<noteq> [] \<Longrightarrow>
      \<forall>(k, ds)\<in>set (fold (\<lambda>(resource, raw_deps) dm.
         fold (add_dep type_to_resource_map resource) raw_deps dm) fd dm). ds \<noteq> []" for fd dm
  proof (induction fd arbitrary: dm)
    case Nil
    then show ?case by simp
  next
    case (Cons p fd)
    obtain r raw where p: "p = (r, raw)" by (cases p)
    from Cons.IH [OF nonempty_fold_add_dep [OF Cons.prems, of type_to_resource_map r raw]]
    show ?case by (simp add: p)
  qed
  from this [of "[]" file_data] show ?thesis
    unfolding build_dependency_map_def by simp
qed

lemma keys_build:
  "set (map fst (build_dependency_map file_data type_to_resource_map)) =
     {R. dm_get (build_dependency_map file_data type_to_resource_map) R \<noteq> []}"
proof -
  let ?dm = "build_dependency_map file_data type_to_resource_map"
  have wf: "wf_dm ?dm" by (rule wf_build)
  have "dm_get ?dm k \<noteq> []" if "k \<in> set (map fst ?dm)" for k
  proof -
    from that obtain ds where in_dm: "(k, ds) \<in> set ?dm" by auto
    with wf have "map_of ?dm k = Some ds" by (simp add: wf_dm_def)
    then have "dm_get ?dm k = ds" by (simp add: dm_get_def)
    moreover from nonempty_build [of file_data type_to_resource_map] in_dm have "ds \<noteq> []"
      by blast
    ultimately show ?thesis by simp
  qed
  moreover have "k \<in> set (map fst ?dm)" if "dm_get ?dm k \<noteq> []" for k
    using that dm_get_not_key [of k ?dm] by auto
  ultimately show ?thesis by blast
qed

declare ms.simps [simp del]

lemma ms_consumes:
  "st' \<in> set (ms r st) \<Longrightarrow> length (fst st') + min_len r \<le> length (fst st)"
proof (induction r st arbitrary: st' rule: ms.induct)
  case (1 w s c)
  then have "st' = (drop (length w) s, c)" "take (length w) s = w"
    unfolding ms.simps by (auto split: if_splits)
  then have "length w \<le> length s" "length (fst st') = length s - length w"
    by (auto simp: min_def dest: arg_cong [where f = length] split: if_splits)
  then show ?case by simp
next
  case (2 p s c)
  then show ?case unfolding ms.simps by (auto split: list.splits if_splits)
next
  case (3 r1 r2 s c)
  from "3.prems" have "st' \<in> set (concat (map (ms r2) (ms r1 (s, c))))"
    by (simp only: ms.simps)
  then obtain st1 where st1: "st1 \<in> set (ms r1 (s, c))" "st' \<in> set (ms r2 st1)"
    by auto
  from "3.IH"(1) [OF st1(1)] "3.IH"(2) [OF st1] show ?case by simp
next
  case (4 r1 r2 s c)
  from "4.prems" have "st' \<in> set (ms r1 (s, c) @ ms r2 (s, c))"
    by (simp only: ms.simps)
  then consider "st' \<in> set (ms r1 (s, c))" | "st' \<in> set (ms r2 (s, c))"
    by auto
  then show ?case
  proof cases
    case 1
    from "4.IH"(1) [OF this] show ?thesis by simp
  next
    case 2
    from "4.IH"(2) [OF this] show ?thesis by simp
  qed
next
  case (5 r s c)
  from "5.prems" have "st' \<in> set (concat (map (ms (Star r))
      (filter (\<lambda>st. length (fst st) < length s) (ms r (s, c)))) @ [(s, c)])"
    by (simp only: ms.simps)
  then consider "st' = (s, c)"
    | st1 where "st1 \<in> set (filter (\<lambda>st. length (fst st) < length s) (ms r (s, c)))"
        "st' \<in> set (ms (Star r) st1)"
    by auto
  then show ?case
  proof cases
    case 1
    then show ?thesis by simp
  next
    case 2
    from "5.IH"(2) [OF 2] 2(1) show ?thesis by simp
  qed
next
  case (6 r s c)
  from "6.prems" have "st' \<in> set ((s, c) # concat (map (ms (Lazy r))
      (filter (\<lambda>st. length (fst st) < length s) (ms r (s, c)))))"
    by (simp only: ms.simps)
  then consider "st' = (s, c)"
    | st1 where "st1 \<in> set (filter (\<lambda>st. length (fst st) < length s) (ms r (s, c)))"
        "st' \<in> set (ms (Lazy r) st1)"
    by auto
  then show ?case
  proof cases
    case 1
    then show ?thesis by simp
  next
    case 2
    from "6.IH"(2) [OF 2] 2(1) show ?thesis by simp
  qed
next
  case (7 r s c)
  from "7.prems" have "st' \<in> set (ms r (s, c) @ [(s, c)])"
    by (simp only: ms.simps)
  then consider "st' \<in> set (ms r (s, c))" | "st' = (s, c)"
    by auto
  then show ?case
  proof cases
    case 1
    from "7.IH" [OF this] show ?thesis by simp
  next
    case 2
    then show ?thesis by simp
  qed
next
  case (8 r s c)
  from "8.prems" have "st' \<in> set (map (\<lambda>st. (fst st, Some (take (length s - length (fst st)) s)))
      (ms r (s, c)))"
    by (simp only: ms.simps)
  then obtain st1 where st1: "st1 \<in> set (ms r (s, c))" "fst st' = fst st1"
    by auto
  from "8.IH" [OF st1(1)] st1(2) show ?case by simp
qed

lemma in_ms_Seq:
  "st' \<in> set (ms (Seq r1 r2) st) \<longleftrightarrow> (\<exists>st1\<in>set (ms r1 st). st' \<in> set (ms r2 st1))"
  by (cases st) (simp only: ms.simps, auto)

lemma in_ms_Alt:
  "st' \<in> set (ms (Alt r1 r2) st) \<longleftrightarrow> st' \<in> set (ms r1 st) \<or> st' \<in> set (ms r2 st)"
  by (cases st) (simp only: ms.simps, auto)

lemma in_ms_Star:
  "st' \<in> set (ms (Star r) st) \<longleftrightarrow>
     st' = st \<or> (\<exists>st1\<in>set (ms r st). length (fst st1) < length (fst st) \<and> st' \<in> set (ms (Star r) st1))"
  by (cases st) (simp only: ms.simps, auto)

lemma in_ms_Lazy:
  "st' \<in> set (ms (Lazy r) st) \<longleftrightarrow>
     st' = st \<or> (\<exists>st1\<in>set (ms r st). length (fst st1) < length (fst st) \<and> st' \<in> set (ms (Lazy r) st1))"
  by (cases st) (simp only: ms.simps, auto)

lemma in_ms_Opt:
  "st' \<in> set (ms (Opt r) st) \<longleftrightarrow> st' \<in> set (ms r st) \<or> st' = st"
  by (cases st) (simp only: ms.simps, auto)

lemma in_ms_Grp:
  "st' \<in> set (ms (Grp r) st) \<longleftrightarrow>
     (\<exists>st1\<in>set (ms r st).
        st' = (fst st1, Some (take (length (fst st) - length (fst st1)) (fst st))))"
  by (cases st) (simp only: ms.simps, auto)

lemma in_ms_Lit: "st' \<in> set (ms (Lit w) st) \<Longrightarrow> snd st' = snd st"
  by (cases st) (simp only: ms.simps, auto split: if_splits)

lemma in_ms_Cls: "st' \<in> set (ms (Cls p) st) \<Longrightarrow> snd st' = snd st"
  by (cases st) (simp only: ms.simps, auto split: if_splits list.splits)

lemma ms_caps:
  "caps_ok r \<Longrightarrow> cap_fine (snd st) \<Longrightarrow> st' \<in> set (ms r st) \<Longrightarrow> cap_fine (snd st')"
proof (induction r st arbitrary: st' rule: ms.induct)
  case (1 w s c)
  then show ?case by (auto dest: in_ms_Lit)
next
  case (2 p s c)
  then show ?case by (auto dest: in_ms_Cls)
next
  case (3 r1 r2 s c)
  from "3.prems"(3) obtain st1 where st1: "st1 \<in> set (ms r1 (s, c))" "st' \<in> set (ms r2 st1)"
    unfolding in_ms_Seq by blast
  from "3.prems"(1) have ok: "caps_ok r1" "caps_ok r2" by simp_all
  from "3.IH"(1) [OF ok(1) "3.prems"(2) st1(1)] have "cap_fine (snd st1)" .
  from "3.IH"(2) [OF st1(1) ok(2) this st1(2)] show ?case .
next
  case (4 r1 r2 s c)
  from "4.prems"(3) consider "st' \<in> set (ms r1 (s, c))" | "st' \<in> set (ms r2 (s, c))"
    unfolding in_ms_Alt by blast
  then show ?case
  proof cases
    case 1
    from "4.IH"(1) [OF _ "4.prems"(2) this] "4.prems"(1) show ?thesis by simp
  next
    case 2
    from "4.IH"(2) [OF _ "4.prems"(2) this] "4.prems"(1) show ?thesis by simp
  qed
next
  case (5 r s c)
  from "5.prems"(3) consider "st' = (s, c)"
    | st1 where "st1 \<in> set (ms r (s, c))" "length (fst st1) < length s" "st' \<in> set (ms (Star r) st1)"
    by (subst (asm) in_ms_Star) auto
  then show ?case
  proof cases
    case 1
    with "5.prems"(2) show ?thesis by simp
  next
    case 2
    from "5.prems"(1) have ok: "caps_ok r" by simp
    from "5.IH"(1) [OF ok "5.prems"(2) 2(1)] have f: "cap_fine (snd st1)" .
    have "st1 \<in> set (filter (\<lambda>st. length (fst st) < length s) (ms r (s, c)))"
      using 2(1,2) by simp
    from "5.IH"(2) [OF this "5.prems"(1) f 2(3)] show ?thesis .
  qed
next
  case (6 r s c)
  from "6.prems"(3) consider "st' = (s, c)"
    | st1 where "st1 \<in> set (ms r (s, c))" "length (fst st1) < length s" "st' \<in> set (ms (Lazy r) st1)"
    by (subst (asm) in_ms_Lazy) auto
  then show ?case
  proof cases
    case 1
    with "6.prems"(2) show ?thesis by simp
  next
    case 2
    from "6.prems"(1) have ok: "caps_ok r" by simp
    from "6.IH"(1) [OF ok "6.prems"(2) 2(1)] have f: "cap_fine (snd st1)" .
    have "st1 \<in> set (filter (\<lambda>st. length (fst st) < length s) (ms r (s, c)))"
      using 2(1,2) by simp
    from "6.IH"(2) [OF this "6.prems"(1) f 2(3)] show ?thesis .
  qed
next
  case (7 r s c)
  from "7.prems"(3) consider "st' \<in> set (ms r (s, c))" | "st' = (s, c)"
    unfolding in_ms_Opt by blast
  then show ?case
  proof cases
    case 1
    from "7.IH" [OF _ "7.prems"(2) this] "7.prems"(1) show ?thesis by simp
  next
    case 2
    with "7.prems"(2) show ?thesis by simp
  qed
next
  case (8 r s c)
  from "8.prems"(3) obtain st1 where st1: "st1 \<in> set (ms r (s, c))"
    "st' = (fst st1, Some (take (length s - length (fst st1)) s))"
    unfolding in_ms_Grp by auto
  from ms_consumes [OF st1(1)] "8.prems"(1) have "2 \<le> length s - length (fst st1)"
    by simp
  then show ?case
    by (simp add: st1(2) cap_fine_def)
qed

lemma ms_cap_mono:
  "snd st \<noteq> None \<Longrightarrow> st' \<in> set (ms r st) \<Longrightarrow> snd st' \<noteq> None"
proof (induction r st arbitrary: st' rule: ms.induct)
  case (1 w s c)
  then show ?case by (auto dest: in_ms_Lit)
next
  case (2 p s c)
  then show ?case by (auto dest: in_ms_Cls)
next
  case (3 r1 r2 s c)
  from "3.prems"(2) obtain st1 where st1: "st1 \<in> set (ms r1 (s, c))" "st' \<in> set (ms r2 st1)"
    unfolding in_ms_Seq by blast
  from "3.IH"(1) [OF "3.prems"(1) st1(1)] have "snd st1 \<noteq> None" .
  from "3.IH"(2) [OF st1(1) this st1(2)] show ?case .
next
  case (4 r1 r2 s c)
  from "4.prems"(2) consider "st' \<in> set (ms r1 (s, c))" | "st' \<in> set (ms r2 (s, c))"
    unfolding in_ms_Alt by blast
  then show ?case
  proof cases
    case 1
    from "4.IH"(1) [OF "4.prems"(1) this] show ?thesis .
  next
    case 2
    from "4.IH"(2) [OF "4.prems"(1) this] show ?thesis .
  qed
next
  case (5 r s c)
  from "5.prems"(2) consider "st' = (s, c)"
    | st1 where "st1 \<in> set (ms r (s, c))" "length (fst st1) < length s" "st' \<in> set (ms (Star r) st1)"
    by (subst (asm) in_ms_Star) auto
  then show ?case
  proof cases
    case 1
    with "5.prems"(1) show ?thesis by simp
  next
    case 2
    from "5.IH"(1) [OF "5.prems"(1) 2(1)] have f: "snd st1 \<noteq> None" .
    have "st1 \<in> set (filter (\<lambda>st. length (fst st) < length s) (ms r (s, c)))"
      using 2(1,2) by simp
    from "5.IH"(2) [OF this f 2(3)] show ?thesis .
  qed
next
  case (6 r s c)
  from "6.prems"(2) consider "st' = (s, c)"
    | st1 where "st1 \<in> set (ms r (s, c))" "length (fst st1) < length s" "st' \<in> set (ms (Lazy r) st1)"
    by (subst (asm) in_ms_Lazy) auto
  then show ?case
  proof cases
    case 1
    with "6.prems"(1) show ?thesis by simp
  next
    case 2
    from "6.IH"(1) [OF "6.prems"(1) 2(1)] have f: "snd st1 \<noteq> None" .
    have "st1 \<in> set (filter (\<lambda>st. length (fst st) < length s) (ms r (s, c)))"
      using 2(1,2) by simp
    from "6.IH"(2) [OF this f 2(3)] show ?thesis .
  qed
next
  case (7 r s c)
  from "7.prems"(2) consider "st' \<in> set (ms r (s, c))" | "st' = (s, c)"
    unfolding in_ms_Opt by blast
  then show ?case
  proof cases
    case 1
    from "7.IH" [OF "7.prems"(1) this] show ?thesis .
  next
    case 2
    with "7.prems"(1) show ?thesis by simp
  qed
next
  case (8 r s c)
  then show ?case
    unfolding in_ms_Grp by auto
qed

lemma ms_sets:
  "sets_cap r \<Longrightarrow> st' \<in> set (ms r st) \<Longrightarrow> snd st' \<noteq> None"
proof (induction r arbitrary: st st')
  case (Seq r1 r2)
  from Seq.prems(2) obtain st1 where st1: "st1 \<in> set (ms r1 st)" "st' \<in> set (ms r2 st1)"
    unfolding in_ms_Seq by blast
  from Seq.prems(1) consider "sets_cap r1" | "sets_cap r2" by auto
  then show ?case
  proof cases
    case 1
    from Seq.IH(1) [OF this st1(1)] have "snd st1 \<noteq> None" .
    then show ?thesis using st1(2) by (rule ms_cap_mono)
  next
    case 2
    from Seq.IH(2) [OF this st1(2)] show ?thesis .
  qed
next
  case (Alt r1 r2)
  from Alt.prems(2) consider "st' \<in> set (ms r1 st)" | "st' \<in> set (ms r2 st)"
    unfolding in_ms_Alt by blast
  then show ?case
    using Alt.IH Alt.prems(1) by cases auto
next
  case (Grp r)
  then show ?case unfolding in_ms_Grp by auto
qed simp_all

lemma head_capture:
  assumes "caps_ok r" "sets_cap r" "ms r (s, None) = (s', c) # rest"
  shows "2 \<le> length (group1 c)"
proof -
  have m: "(s', c) \<in> set (ms r (s, None))"
    using assms(3) by simp
  from ms_sets [OF assms(2) m] obtain w where w: "c = Some w" by auto
  from ms_caps [OF assms(1) _ m] have "cap_fine c" by (simp add: cap_fine_def)
  with w show ?thesis by (simp add: cap_fine_def group1_def)
qed

declare findall.simps [simp del]

lemma findall_names:
  "caps_ok r \<Longrightarrow> sets_cap r \<Longrightarrow> n \<in> set (findall r s) \<Longrightarrow> 2 \<le> length n"
proof (induction r s rule: findall.induct)
  case (1 r s)
  show ?case
  proof (cases "ms r (s, None)")
    case Nil
    with "1.prems" "1.IH"(1) show ?thesis
      by (subst (asm) findall.simps) (auto split: list.splits)
  next
    case (Cons st rest)
    obtain s' c where st: "st = (s', c)" by (cases st)
    from "1.prems"(3) Cons st consider "n = group1 c"
      | "length s' < length s" "n \<in> set (findall r s')"
      | x xs where "\<not> length s' < length s" "s = x # xs" "n \<in> set (findall r xs)"
      by (subst (asm) findall.simps) (auto split: list.splits if_splits)
    then show ?thesis
    proof cases
      case 1
      with head_capture [OF "1.prems"(1,2)] Cons st show ?thesis by simp
    next
      case 2
      from "1.IH"(2) [OF Cons st [symmetric] 2(1) "1.prems"(1,2) 2(2)] show ?thesis .
    next
      case 3
      from "1.IH"(3) [OF Cons st [symmetric] 3(1,2) "1.prems"(1,2) 3(3)] show ?thesis .
    qed
  qed
qed

lemma search_names:
  "caps_ok r \<Longrightarrow> sets_cap r \<Longrightarrow> search r s = Some n \<Longrightarrow> 2 \<le> length n"
proof (induction s)
  case Nil
  then show ?case
    by (auto split: list.splits dest: head_capture)
next
  case (Cons x xs)
  then show ?case
    by (auto split: list.splits dest: head_capture)
qed

lemma type_name_min_len: "min_len type_name = 2"
  by (simp add: type_name_def Plus_def)

lemma defined_type_re_ok: "caps_ok defined_type_re" "sets_cap defined_type_re"
  by (simp_all add: defined_type_re_def type_or_interface_def Plus_def type_name_min_len)

lemma implements_re_ok: "caps_ok (implements_re i)" "sets_cap (implements_re i)"
  by (simp_all add: implements_re_def Plus_def type_name_min_len)

lemma first_type_re_ok: "caps_ok first_type_re" "sets_cap first_type_re"
  by (simp_all add: first_type_re_def Plus_def type_name_min_len)

lemma field_type_re_ok: "caps_ok field_type_re" "sets_cap field_type_re"
  by (simp_all add: field_type_re_def Plus_def type_name_min_len)

lemma declared_resource_names:
  "declared_resource interfaces content = Some n \<Longrightarrow> 2 \<le> length n"
proof (induction interfaces)
  case Nil
  then show ?case
    using search_names [OF first_type_re_ok] by simp
next
  case (Cons i interfaces)
  then show ?case
    using search_names [OF implements_re_ok, of i content n]
    by (auto split: option.splits)
qed

lemma set_fold_set_add: "set (fold (\<lambda>x acc. set_add acc x) xs acc) = set acc \<union> set xs"
  by (induction xs arbitrary: acc) (auto simp: set_add_def)

lemma dependencies_from_field_types:
  "n \<in> set (get_dependencies_from_content content) \<Longrightarrow>
     \<exists>type_def. n \<in> set (findall field_type_re type_def)"
proof -
  have "set (fold (\<lambda>type_def dependencies. fold (\<lambda>ftype deps. set_add deps ftype)
                 (findall field_type_re type_def) dependencies) tds acc) =
        set acc \<union> (\<Union>td\<in>set tds. set (findall field_type_re td))" for tds acc
    by (induction tds arbitrary: acc) (auto simp: set_fold_set_add)
  then show "n \<in> set (get_dependencies_from_content content) \<Longrightarrow> ?thesis"
    by (auto simp: get_dependencies_from_content_def Let_def)
qed

section \<open>The claims of the specification\<close>

text \<open>
  Claim C1, as amended. For every resource \<open>R\<close>, the dependency set of \<open>R\<close> holds
  exactly the raw references \<open>D\<close> of \<open>R\<close>'s file data that are not scalar, are not
  \<open>R\<close> itself and are not owned by \<open>R\<close>. The edge goes to the raw name \<open>D\<close>, not to
  the resource owning \<open>D\<close>, and a reference that has no entry in the ownership map is
  kept, since \<open>type_to_resource_map.get(dep)\<close> is then \<open>None\<close>, which differs from
  every resource.
\<close>

theorem dependency_targets_are_raw_references:
  "set (dm_get (build_dependency_map file_data type_to_resource_map) R) =
     {D. \<exists>raw_deps. (R, raw_deps) \<in> set file_data \<and> D \<in> set raw_deps \<and>
           D \<notin> set SCALAR_TYPES \<and> D \<noteq> R \<and> map_of type_to_resource_map D \<noteq> Some R}"
  by (rule dm_get_build)

theorem dependency_targets_are_raw_references_witness:
  "set (dm_get (build_dependency_map
                 [(str ''Aa'', [str ''Dd'', str ''String'']), (str ''Bb'', [])]
                 [(str ''Aa'', str ''Aa''), (str ''Bb'', str ''Bb''), (str ''Dd'', str ''Bb'')])
          (str ''Aa'')) = {str ''Dd''}"
  unfolding dependency_targets_are_raw_references [of _ _ "str ''Aa''"]
  by (auto simp: str_def SCALAR_TYPES_def)

text \<open>
  The claim as the specification states it fails. File \<open>Aa\<close> refers to \<open>Dd\<close>, a type
  defined in the file of resource \<open>Bb\<close>, and to \<open>Uu\<close>, which no file defines: the
  dependency set of \<open>Aa\<close> is \<open>{Dd, Uu}\<close> and does not hold the owner \<open>Bb\<close>.
\<close>

theorem dependency_targets_counterexample:
  "map_of [(str ''Aa'', str ''Aa''), (str ''Bb'', str ''Bb''), (str ''Dd'', str ''Bb'')] (str ''Dd'')
     = Some (str ''Bb'') \<and>
   map_of [(str ''Aa'', str ''Aa''), (str ''Bb'', str ''Bb''), (str ''Dd'', str ''Bb'')] (str ''Uu'')
     = None \<and>
   dm_get (build_dependency_map
             [(str ''Aa'', [str ''Dd'', str ''Uu'']), (str ''Bb'', [str ''String''])]
             [(str ''Aa'', str ''Aa''), (str ''Bb'', str ''Bb''), (str ''Dd'', str ''Bb'')])
     (str ''Aa'') = [str ''Dd'', str ''Uu''] \<and>
   str ''Bb'' \<notin> set [str ''Dd'', str ''Uu'']"
  by code_simp

text \<open>
  Claim C8. No resource \<open>R\<close> is in its own dependency set in the built graph, whatever
  the raw references of its document are, also when they name \<open>R\<close> itself.
\<close>

theorem no_self_loops:
  "R \<notin> set (dm_get (build_dependency_map file_data type_to_resource_map) R)"
  by (simp add: dm_get_build)

theorem no_self_loops_witness:
  "str ''Aa'' \<notin> set (dm_get (build_dependency_map
        [(str ''Aa'', [str ''Aa'', str ''Bb'']), (str ''Bb'', [])]
        [(str ''Aa'', str ''Aa''), (str ''Bb'', str ''Bb'')]) (str ''Aa''))"
  by (rule no_self_loops)

text \<open>
  Claim C2. For every acyclic dependency graph the leveler finishes, and every node of
  the graph gets a level \<open>l\<close> that is 0 when the node has no dependencies and
  otherwise one more than the greatest level of its dependencies: every dependency lies
  strictly lower, and no smaller level would do. Equivalently \<open>l\<close> is the length of
  the longest chain of dependencies that starts at the node.
\<close>

theorem levels_are_tightest:
  assumes wf: "wf_dm dm" and ac: "acyclic (dm_edges dm)"
  shows "\<exists>rows. level_order dm = Some (Finished rows) \<and>
     (\<forall>n\<in>dm_nodes dm. \<exists>l. level_of rows n = Some l \<and>
        l = (if dm_get dm n = [] then 0
             else Suc (Max {l'. \<exists>d\<in>set (dm_get dm n). level_of rows d = Some l'})) \<and>
        (\<forall>d\<in>set (dm_get dm n). \<exists>l'<l. level_of rows d = Some l') \<and>
        (\<exists>ns. dep_chain dm (n # ns) \<and> length ns = l) \<and>
        (\<forall>ns. dep_chain dm (n # ns) \<longrightarrow> length ns \<le> l))"
proof -
  from wf ac obtain K where K: "level_order dm = Some (Finished (rows_upto dm K))"
    and nodes: "dm_nodes dm = (\<Union>l<K. layer dm l)"
    by (rule leveled_acyclic)
  let ?rows = "rows_upto dm K"
  have "\<exists>l. level_of ?rows n = Some l \<and>
        l = (if dm_get dm n = [] then 0
             else Suc (Max {l'. \<exists>d\<in>set (dm_get dm n). level_of ?rows d = Some l'})) \<and>
        (\<forall>d\<in>set (dm_get dm n). \<exists>l'<l. level_of ?rows d = Some l') \<and>
        (\<exists>ns. dep_chain dm (n # ns) \<and> length ns = l) \<and>
        (\<forall>ns. dep_chain dm (n # ns) \<longrightarrow> length ns \<le> l)"
    if "n \<in> dm_nodes dm" for n
  proof -
    from that nodes obtain l where l: "l < K" "n \<in> layer dm l" by auto
    have lev: "level_of ?rows n = Some l"
      using l by (simp add: level_of_rows_upto)
    have eq: "l = (if dm_get dm n = [] then 0
             else Suc (Max {l'. \<exists>d\<in>set (dm_get dm n). level_of ?rows d = Some l'}))"
    proof (cases "dm_get dm n = []")
      case True
      have "l = 0"
      proof (cases l)
        case (Suc j)
        with layer_pos_dep [of n dm j] l(2) True show ?thesis by simp
      qed simp
      with True show ?thesis by simp
    next
      case False
      from Max_dep_levels [OF l(2) False l(1)] False show ?thesis
        by (simp add: level_of_rows_upto)
    qed
    have lower: "\<forall>d\<in>set (dm_get dm n). \<exists>l'<l. level_of ?rows d = Some l'"
    proof
      fix d assume "d \<in> set (dm_get dm n)"
      from layer_deps_lower [OF l(2) this] obtain l' where "l' < l" "d \<in> layer dm l'" by auto
      with l(1) have "l' < l \<and> level_of ?rows d = Some l'"
        by (simp add: level_of_rows_upto)
      then show "\<exists>l'<l. level_of ?rows d = Some l'" by blast
    qed
    from lev eq lower chain_exists [OF l(2)] chain_bound [OF _ l(2)] show ?thesis
      by (intro exI [of _ l]) simp
  qed
  with K show ?thesis by blast
qed

theorem levels_are_tightest_witness:
  "wf_dm [(str ''Aa'', [str ''Bb'', str ''Cc'']), (str ''Bb'', [str ''Cc''])] \<and>
   acyclic (dm_edges [(str ''Aa'', [str ''Bb'', str ''Cc'']), (str ''Bb'', [str ''Cc''])]) \<and>
   (\<exists>rows. level_order [(str ''Aa'', [str ''Bb'', str ''Cc'']), (str ''Bb'', [str ''Cc''])]
              = Some (Finished rows) \<and>
      level_of rows (str ''Cc'') = Some 0 \<and> level_of rows (str ''Bb'') = Some 1 \<and>
      level_of rows (str ''Aa'') = Some 2)"
proof -
  let ?dm = "[(str ''Aa'', [str ''Bb'', str ''Cc'']), (str ''Bb'', [str ''Cc''])]"
  have wf: "wf_dm ?dm"
    by (simp add: wf_dm_def str_def)
  have ac: "acyclic (dm_edges ?dm)"
    by (simp add: dm_edges_def str_def rtrancl_insert acyclic_empty)
  have ev: "level_order ?dm = Some (Finished
      [(0, str ''Cc'', []), (1, str ''Bb'', [str ''Cc'']), (2, str ''Aa'', [str ''Bb'', str ''Cc''])])"
    by code_simp
  from levels_are_tightest [OF wf ac] obtain rows where "level_order ?dm = Some (Finished rows)"
    by blast
  with ev have "level_order ?dm = Some (Finished rows) \<and>
      level_of rows (str ''Cc'') = Some 0 \<and> level_of rows (str ''Bb'') = Some 1 \<and>
      level_of rows (str ''Aa'') = Some 2"
    by (auto simp: level_of_def str_def)
  with wf ac show ?thesis by blast
qed

text \<open>
  Claim C3. When the dependency graph has a cycle, the leveler stops with the cycle error
  (\<open>prepare\<close> raises it before the first row is written) and no node gets a level: no
  row has been written, so no row written earlier is changed. For the corpus in which
  \<open>A\<close> refers to \<open>B\<close> and \<open>B\<close> to \<open>A\<close>, neither gets a row.
\<close>

theorem cycle_is_reported:
  assumes "wf_dm dm" and "\<not> acyclic (dm_edges dm)"
  shows "level_order dm = Some (Raised CycleError [])"
  using assms by (rule level_order_cyclic)

theorem cycle_is_reported_witness:
  "wf_dm (build_dependency_map
     [(str ''A1'', [str ''B1'']), (str ''B1'', [str ''A1''])]
     [(str ''A1'', str ''A1''), (str ''B1'', str ''B1'')]) \<and>
   \<not> acyclic (dm_edges (build_dependency_map
     [(str ''A1'', [str ''B1'']), (str ''B1'', [str ''A1''])]
     [(str ''A1'', str ''A1''), (str ''B1'', str ''B1'')])) \<and>
   level_order (build_dependency_map
     [(str ''A1'', [str ''B1'']), (str ''B1'', [str ''A1''])]
     [(str ''A1'', str ''A1''), (str ''B1'', str ''B1'')]) = Some (Raised CycleError [])"
proof -
  have b: "build_dependency_map
     [(str ''A1'', [str ''B1'']), (str ''B1'', [str ''A1''])]
     [(str ''A1'', str ''A1''), (str ''B1'', str ''B1'')] =
     [(str ''A1'', [str ''B1'']), (str ''B1'', [str ''A1''])]"
    by code_simp
  have wf: "wf_dm [(str ''A1'', [str ''B1'']), (str ''B1'', [str ''A1''])]"
    by (simp add: wf_dm_def str_def)
  have cyc: "\<not> acyclic (dm_edges [(str ''A1'', [str ''B1'']), (str ''B1'', [str ''A1''])])"
    by (simp add: dm_edges_def str_def rtrancl_insert acyclic_empty)
  from cycle_is_reported [OF wf cyc] wf cyc show ?thesis
    unfolding b by simp
qed

text \<open>
  Claim C7. The leveled table of an acyclic graph depends on the graph only, not on the
  order in which the dict yields the resources or a set yields its elements: two
  representations of the same graph give the same rows in the same order. The rows are
  ordered by level and, within a level, by ascending name.
\<close>

theorem leveling_is_deterministic:
  assumes wf1: "wf_dm dm1" and wf2: "wf_dm dm2" and same: "same_graph dm1 dm2"
    and ac: "acyclic (dm_edges dm1)"
  shows "level_order dm2 = level_order dm1 \<and>
     (\<exists>rows. level_order dm1 = Some (Finished rows) \<and> sorted_wrt row_before rows)"
proof -
  from wf1 ac obtain K1 where K1: "level_order dm1 = Some (Finished (rows_upto dm1 K1))"
    "layer dm1 K1 = {}" "\<forall>j<K1. layer dm1 j \<noteq> {}"
    by (rule leveled_acyclic)
  have "acyclic (dm_edges dm2)"
    using ac same_graph_edges [OF same wf1 wf2] by simp
  with wf2 obtain K2 where K2: "level_order dm2 = Some (Finished (rows_upto dm2 K2))"
    "layer dm2 K2 = {}" "\<forall>j<K2. layer dm2 j \<noteq> {}"
    by (rule leveled_acyclic)
  note l = same_graph_layer [OF same wf1 wf2]
  have "\<not> K1 < K2" using K1(2) K2(3) l by auto
  moreover have "\<not> K2 < K1" using K2(2) K1(3) l by auto
  ultimately have "K1 = K2" by simp
  then have "level_order dm2 = level_order dm1"
    using K1(1) K2(1) same_graph_rows [OF same wf1 wf2] by simp
  moreover have "sorted_wrt row_before (rows_upto dm1 K1)"
    by (rule sorted_wrt_rows_upto)
  ultimately show ?thesis
    using K1(1) by blast
qed

theorem leveling_is_deterministic_witness:
  "wf_dm [(str ''Aa'', [str ''Bb'', str ''Cc'']), (str ''Bb'', [str ''Cc''])] \<and>
   wf_dm [(str ''Bb'', [str ''Cc'']), (str ''Aa'', [str ''Cc'', str ''Bb''])] \<and>
   same_graph [(str ''Aa'', [str ''Bb'', str ''Cc'']), (str ''Bb'', [str ''Cc''])]
     [(str ''Bb'', [str ''Cc'']), (str ''Aa'', [str ''Cc'', str ''Bb''])] \<and>
   acyclic (dm_edges [(str ''Aa'', [str ''Bb'', str ''Cc'']), (str ''Bb'', [str ''Cc''])]) \<and>
   level_order [(str ''Bb'', [str ''Cc'']), (str ''Aa'', [str ''Cc'', str ''Bb''])] =
     level_order [(str ''Aa'', [str ''Bb'', str ''Cc'']), (str ''Bb'', [str ''Cc''])]"
proof -
  let ?dm1 = "[(str ''Aa'', [str ''Bb'', str ''Cc'']), (str ''Bb'', [str ''Cc''])]"
  let ?dm2 = "[(str ''Bb'', [str ''Cc'']), (str ''Aa'', [str ''Cc'', str ''Bb''])]"
  have wf1: "wf_dm ?dm1" and wf2: "wf_dm ?dm2"
    by (simp_all add: wf_dm_def str_def)
  have same: "same_graph ?dm1 ?dm2"
    by (auto simp: same_graph_def dm_get_def str_def)
  have ac: "acyclic (dm_edges ?dm1)"
    by (simp add: dm_edges_def str_def rtrancl_insert acyclic_empty)
  from leveling_is_deterministic [OF wf1 wf2 same ac] wf1 wf2 same ac show ?thesis
    by blast
qed

text \<open>
  Claim C5. The program ends on every dependency graph and for every recursion limit.
  When the graph has a cycle, \<open>prepare\<close> raises the cycle error before \<open>build_node\<close>
  is called at all, so the recursion never meets a cycle; when it has none, the recursion
  is never deeper than the number of nodes of the graph, and the trees are built.
\<close>

theorem tree_builder_never_meets_a_cycle:
  assumes "wf_dm dm"
  shows "(\<exists>r. write_outputs limit dm = Some r) \<and>
     (\<not> acyclic (dm_edges dm) \<longrightarrow> write_outputs limit dm = Some (Inl (CycleError, []))) \<and>
     (acyclic (dm_edges dm) \<and> card (dm_nodes dm) \<le> limit \<longrightarrow>
        (\<exists>out. write_outputs limit dm = Some (Inr out)))"
proof (intro conjI impI)
  show "\<exists>r. write_outputs limit dm = Some r"
    using assms by (rule write_outputs_total)
  show "write_outputs limit dm = Some (Inl (CycleError, []))" if "\<not> acyclic (dm_edges dm)"
    using assms that by (rule write_outputs_cyclic)
  show "\<exists>out. write_outputs limit dm = Some (Inr out)"
    if "acyclic (dm_edges dm) \<and> card (dm_nodes dm) \<le> limit"
  proof -
    from that write_outputs_acyclic [OF assms, of limit] obtain K where
      "write_outputs limit dm =
        Some (Inr \<lparr>csv_rows = rows_upto dm K, cycle_reported = False,
                    trees = map (tree_of K dm) (sort (root_nodes dm))\<rparr>)"
      by (elim conjE exE) auto
    then show ?thesis by (intro exI) 
  qed
qed

theorem tree_builder_never_meets_a_cycle_witness:
  "wf_dm [(str ''A1'', [str ''B1'']), (str ''B1'', [str ''A1''])] \<and>
   \<not> acyclic (dm_edges [(str ''A1'', [str ''B1'']), (str ''B1'', [str ''A1''])]) \<and>
   write_outputs 1000 [(str ''A1'', [str ''B1'']), (str ''B1'', [str ''A1''])] =
     Some (Inl (CycleError, []))"
proof -
  have wf: "wf_dm [(str ''A1'', [str ''B1'']), (str ''B1'', [str ''A1''])]"
    by (simp add: wf_dm_def str_def)
  have cyc: "\<not> acyclic (dm_edges [(str ''A1'', [str ''B1'']), (str ''B1'', [str ''A1''])])"
    by (simp add: dm_edges_def str_def rtrancl_insert acyclic_empty)
  from tree_builder_never_meets_a_cycle [OF wf, of 1000] wf cyc show ?thesis
    by simp
qed

text \<open>
  Claim C9. For an acyclic graph, every node of every tree agrees with the graph: a node
  for \<open>P\<close> has no \<open>children\<close> key when the dependency set of \<open>P\<close> is empty, and
  otherwise its children are, in this order, the nodes of the sorted dependencies of
  \<open>P\<close>. Every key of the graph, hence every resource with a dependency, occurs in some
  tree.
\<close>

theorem tree_matches_graph:
  assumes wf: "wf_dm dm" and ac: "acyclic (dm_edges dm)" and lim: "card (dm_nodes dm) \<le> limit"
  shows "\<exists>ts. json_tree limit dm = Inr ts \<and> (\<forall>t\<in>set ts. tree_ok dm t) \<and>
     (\<forall>k\<in>set (map fst dm). \<exists>t\<in>set ts. k \<in> tree_names t)"
proof -
  from json_tree_acyclic [OF wf ac lim] obtain K where
    K: "json_tree limit dm = Inr (map (tree_of K dm) (sort (root_nodes dm)))"
    and all: "below dm K = dm_nodes dm"
    by (elim exE conjE)
  let ?ts = "map (tree_of K dm) (sort (root_nodes dm))"
  have ok: "tree_ok dm t" if "t \<in> set ?ts" for t
  proof -
    from that obtain r where r: "r \<in> set (root_nodes dm)" "t = tree_of K dm r" by auto
    then have "r \<in> below dm K"
      unfolding all by (auto simp: set_root_nodes dm_nodes_def)
    with r(2) show ?thesis by (simp add: tree_ok_tree_of)
  qed
  have "wf (dm_edges dm)"
    using finite_dm_edges ac by (rule finite_acyclic_wf)
  then have occurs: "k \<in> set (map fst dm) \<longrightarrow> (\<exists>t\<in>set ?ts. k \<in> tree_names t)" for k
  proof (induction k rule: wf_induct_rule)
    case (less x)
    show ?case
    proof
      assume key: "x \<in> set (map fst dm)"
      show "\<exists>t\<in>set ?ts. x \<in> tree_names t"
      proof (cases "x \<in> set (root_nodes dm)")
        case True
        then have "tree_of K dm x \<in> set ?ts" by simp
        moreover have "x \<in> tree_names (tree_of K dm x)"
          using name_in_tree_names [of "tree_of K dm x"] by simp
        ultimately show ?thesis by blast
      next
        case False
        with key have "x \<in> set (concat (map snd dm))"
          by (simp add: set_root_nodes)
        then obtain y ds where y: "(y, ds) \<in> set dm" "x \<in> set ds" by auto
        then have e: "(y, x) \<in> dm_edges dm" by (force simp: dm_edges_def)
        have "y \<in> set (map fst dm)" using y(1) by force
        with less.IH [OF e] obtain t where t: "t \<in> set ?ts" "y \<in> tree_names t" by blast
        from e have "x \<in> set (dm_get dm y)" by (simp add: dm_edges_iff [OF wf])
        from tree_names_closed [OF ok [OF t(1)] t(2) this] t(1) show ?thesis by blast
      qed
    qed
  qed
  from K ok occurs show ?thesis by blast
qed

theorem tree_matches_graph_witness:
  "wf_dm [(str ''Aa'', [str ''Bb'', str ''Cc'']), (str ''Bb'', [str ''Cc''])] \<and>
   acyclic (dm_edges [(str ''Aa'', [str ''Bb'', str ''Cc'']), (str ''Bb'', [str ''Cc''])]) \<and>
   card (dm_nodes [(str ''Aa'', [str ''Bb'', str ''Cc'']), (str ''Bb'', [str ''Cc''])]) \<le> 5 \<and>
   (\<exists>ts. json_tree 5 [(str ''Aa'', [str ''Bb'', str ''Cc'']), (str ''Bb'', [str ''Cc''])] = Inr ts \<and>
      ts = [Node (str ''Aa'')
              (Some [Node (str ''Bb'') (Some [Node (str ''Cc'') None]), Node (str ''Cc'') None])])"
proof -
  let ?dm = "[(str ''Aa'', [str ''Bb'', str ''Cc'']), (str ''Bb'', [str ''Cc''])]"
  have wf: "wf_dm ?dm"
    by (simp add: wf_dm_def str_def)
  have ac: "acyclic (dm_edges ?dm)"
    by (simp add: dm_edges_def str_def rtrancl_insert acyclic_empty)
  have lim: "card (dm_nodes ?dm) \<le> 5"
    by (simp add: dm_nodes_def str_def card_insert_if)
  have ev: "json_tree 5 ?dm = Inr [Node (str ''Aa'')
      (Some [Node (str ''Bb'') (Some [Node (str ''Cc'') None]), Node (str ''Cc'') None])]"
    by code_simp
  from tree_matches_graph [OF wf ac lim] obtain ts where "json_tree 5 ?dm = Inr ts"
    by (elim exE conjE)
  with ev have "json_tree 5 ?dm = Inr ts \<and> ts = [Node (str ''Aa'')
      (Some [Node (str ''Bb'') (Some [Node (str ''Cc'') None]), Node (str ''Cc'') None])]"
    by auto
  with wf ac lim show ?thesis
    by (intro conjI exI [of _ ts]) simp_all
qed

text \<open>
  Claim C4, as amended. When the built dependency graph is acyclic, the leveled table has
  exactly one row for each node of the graph, and the nodes of the graph are the
  resources that have at least one dependency together with the names that occur in some
  dependency set. A resource without dependencies gets its row, at level 0, when some
  dependency set names it, and no row otherwise.
\<close>

theorem graph_nodes_are_leveled:
  assumes dm: "dm = build_dependency_map file_data type_to_resource_map"
    and ac: "acyclic (dm_edges dm)"
  shows "\<exists>rows. level_order dm = Some (Finished rows) \<and>
     distinct (map (fst \<circ> snd) rows) \<and>
     set (map (fst \<circ> snd) rows) = {n. dm_get dm n \<noteq> [] \<or> (\<exists>R. n \<in> set (dm_get dm R))} \<and>
     (\<forall>n. dm_get dm n = [] \<longrightarrow>
        (if \<exists>R. n \<in> set (dm_get dm R) then (0, n, []) \<in> set rows
         else n \<notin> set (map (fst \<circ> snd) rows)))"
proof -
  have wf: "wf_dm dm" unfolding dm by (rule wf_build)
  have keys: "set (map fst dm) = {R. dm_get dm R \<noteq> []}"
    unfolding dm by (rule keys_build)
  have targets: "set (concat (map snd dm)) = {n. \<exists>R. n \<in> set (dm_get dm R)}"
    using in_targets_iff [OF wf] by blast
  from leveled_nodes_of_graph [OF wf ac] obtain rows where
    r: "level_order dm = Some (Finished rows)" "distinct (map (fst \<circ> snd) rows)"
       "set (map (fst \<circ> snd) rows) = set (map fst dm) \<union> set (concat (map snd dm))"
       "\<forall>n\<in>set (concat (map snd dm)). dm_get dm n = [] \<longrightarrow> (0, n, []) \<in> set rows"
    by (elim exE conjE)
  have names: "set (map (fst \<circ> snd) rows) = {n. dm_get dm n \<noteq> [] \<or> (\<exists>R. n \<in> set (dm_get dm R))}"
    unfolding r(3) keys targets by blast
  have "\<forall>n. dm_get dm n = [] \<longrightarrow>
        (if \<exists>R. n \<in> set (dm_get dm R) then (0, n, []) \<in> set rows
         else n \<notin> set (map (fst \<circ> snd) rows))"
  proof (intro allI impI)
    fix n assume e: "dm_get dm n = []"
    show "if \<exists>R. n \<in> set (dm_get dm R) then (0, n, []) \<in> set rows
         else n \<notin> set (map (fst \<circ> snd) rows)"
    proof (cases "\<exists>R. n \<in> set (dm_get dm R)")
      case True
      then have "n \<in> set (concat (map snd dm))" unfolding targets by simp
      with r(4) e have "(0, n, []) \<in> set rows" by blast
      with True show ?thesis by simp
    next
      case False
      with e names show ?thesis by simp
    qed
  qed
  with r(1,2) names show ?thesis
    by (intro exI [of _ rows] conjI)
qed

theorem graph_nodes_are_leveled_witness:
  "[(str ''Aa'', [str ''Bb''])] =
     build_dependency_map
       [(str ''Aa'', [str ''Bb'', str ''String'']), (str ''Bb'', [str ''Int'']),
        (str ''Cc'', [str ''String''])]
       [(str ''Aa'', str ''Aa''), (str ''Bb'', str ''Bb''), (str ''Cc'', str ''Cc'')] \<and>
   acyclic (dm_edges [(str ''Aa'', [str ''Bb''])]) \<and>
   (\<exists>rows. level_order [(str ''Aa'', [str ''Bb''])] = Some (Finished rows) \<and>
      map (fst \<circ> snd) rows = [str ''Bb'', str ''Aa''] \<and> (0, str ''Bb'', []) \<in> set rows \<and>
      str ''Cc'' \<notin> set (map (fst \<circ> snd) rows))"
proof -
  let ?dm = "[(str ''Aa'', [str ''Bb''])]"
  have b: "?dm = build_dependency_map
       [(str ''Aa'', [str ''Bb'', str ''String'']), (str ''Bb'', [str ''Int'']),
        (str ''Cc'', [str ''String''])]
       [(str ''Aa'', str ''Aa''), (str ''Bb'', str ''Bb''), (str ''Cc'', str ''Cc'')]"
    by code_simp
  have ac: "acyclic (dm_edges ?dm)"
    by (simp add: dm_edges_def str_def acyclic_empty)
  have ev: "level_order ?dm = Some (Finished [(0, str ''Bb'', []), (1, str ''Aa'', [str ''Bb''])])"
    by code_simp
  from graph_nodes_are_leveled [OF b ac] obtain rows where
    "level_order ?dm = Some (Finished rows)"
    by (elim exE conjE)
  with ev have "level_order ?dm = Some (Finished rows) \<and>
      map (fst \<circ> snd) rows = [str ''Bb'', str ''Aa''] \<and> (0, str ''Bb'', []) \<in> set rows \<and>
      str ''Cc'' \<notin> set (map (fst \<circ> snd) rows)"
    by (auto simp: str_def)
  then have "\<exists>rows. level_order ?dm = Some (Finished rows) \<and>
      map (fst \<circ> snd) rows = [str ''Bb'', str ''Aa''] \<and> (0, str ''Bb'', []) \<in> set rows \<and>
      str ''Cc'' \<notin> set (map (fst \<circ> snd) rows)"
    by (rule exI [of _ rows])
  then show ?thesis
    by (rule conjI [OF b conjI [OF ac]])
qed

text \<open>
  The claim as the specification states it fails: the only resource of this corpus has
  scalar references only, so it is no node of the graph, and the table has no row for it.
\<close>

theorem isolated_resource_counterexample:
  "main_core 5 [(str ''Aa'', [str ''String''])] [(str ''Aa'', str ''Aa'')] =
     Some (Inr \<lparr>csv_rows = [], cycle_reported = False, trees = []\<rparr>)"
  by code_simp

text \<open>
  Claim C6, as amended. When the built dependency graph is acyclic, the roots of the tree
  output are exactly the resources that have at least one dependency and occur in no
  dependency set; the trees come in ascending order of the root names, each root once. A
  resource without dependencies is never a root.
\<close>

theorem roots_are_undepended_keys:
  assumes dm: "dm = build_dependency_map file_data type_to_resource_map"
    and ac: "acyclic (dm_edges dm)" and lim: "card (dm_nodes dm) \<le> limit"
  shows "\<exists>ts. json_tree limit dm = Inr ts \<and>
     set (map name ts) = {R. dm_get dm R \<noteq> [] \<and> (\<forall>n. R \<notin> set (dm_get dm n))} \<and>
     sorted (map name ts) \<and> distinct (map name ts)"
proof -
  have wf: "wf_dm dm" unfolding dm by (rule wf_build)
  have keys: "set (map fst dm) = {R. dm_get dm R \<noteq> []}"
    unfolding dm by (rule keys_build)
  from roots_of_graph [OF wf ac lim] obtain ts where
    t: "json_tree limit dm = Inr ts"
       "set (map name ts) = {k \<in> set (map fst dm). \<forall>n. k \<notin> set (dm_get dm n)}"
       "sorted (map name ts)" "distinct (map name ts)"
    by (elim exE conjE)
  have "set (map name ts) = {R. dm_get dm R \<noteq> [] \<and> (\<forall>n. R \<notin> set (dm_get dm n))}"
    unfolding t(2) keys by blast
  with t(1,3,4) show ?thesis
    by (intro exI [of _ ts] conjI)
qed

theorem roots_are_undepended_keys_witness:
  "[(str ''Aa'', [str ''Bb''])] =
     build_dependency_map
       [(str ''Aa'', [str ''Bb'', str ''String'']), (str ''Bb'', [str ''Int'']),
        (str ''Cc'', [str ''String''])]
       [(str ''Aa'', str ''Aa''), (str ''Bb'', str ''Bb''), (str ''Cc'', str ''Cc'')] \<and>
   acyclic (dm_edges [(str ''Aa'', [str ''Bb''])]) \<and>
   card (dm_nodes [(str ''Aa'', [str ''Bb''])]) \<le> 5 \<and>
   (\<exists>ts. json_tree 5 [(str ''Aa'', [str ''Bb''])] = Inr ts \<and> map name ts = [str ''Aa''])"
proof -
  let ?dm = "[(str ''Aa'', [str ''Bb''])]"
  have b: "?dm = build_dependency_map
       [(str ''Aa'', [str ''Bb'', str ''String'']), (str ''Bb'', [str ''Int'']),
        (str ''Cc'', [str ''String''])]
       [(str ''Aa'', str ''Aa''), (str ''Bb'', str ''Bb''), (str ''Cc'', str ''Cc'')]"
    by code_simp
  have ac: "acyclic (dm_edges ?dm)"
    by (simp add: dm_edges_def str_def acyclic_empty)
  have lim: "card (dm_nodes ?dm) \<le> 5"
    by (simp add: dm_nodes_def str_def card_insert_if)
  have ev: "json_tree 5 ?dm = Inr [Node (str ''Aa'') (Some [Node (str ''Bb'') None])]"
    by code_simp
  from roots_are_undepended_keys [OF b ac lim] obtain ts where
    "json_tree 5 ?dm = Inr ts"
    by (elim exE conjE)
  with ev have "json_tree 5 ?dm = Inr ts \<and> map name ts = [str ''Aa'']"
    by auto
  then have "\<exists>ts. json_tree 5 ?dm = Inr ts \<and> map name ts = [str ''Aa'']"
    by (rule exI [of _ ts])
  then show ?thesis
    by (rule conjI [OF b conjI [OF ac conjI [OF lim]]])
qed

text \<open>
  The claim as the specification states it fails: \<open>Cc\<close> has scalar references only and no
  resource depends on it, so it occurs in no dependency set, yet the one root is \<open>Aa\<close>.
\<close>

theorem edgeless_root_counterexample:
  "main_core 5
     [(str ''Aa'', [str ''Bb'']), (str ''Bb'', []), (str ''Cc'', [str ''String''])]
     [(str ''Aa'', str ''Aa''), (str ''Bb'', str ''Bb''), (str ''Cc'', str ''Cc'')] =
   Some (Inr \<lparr>csv_rows = [(0, str ''Bb'', []), (1, str ''Aa'', [str ''Bb''])],
               cycle_reported = False,
               trees = [Node (str ''Aa'') (Some [Node (str ''Bb'') None])]\<rparr>)"
  by code_simp

text \<open>
  Claim C10. Every name that \<open>get_defined_types\<close> returns, that a declaration pattern of
  \<open>get_main_resource_name\<close> selects, or that \<open>get_dependencies_from_content\<close>
  collects has at least two characters, since each pattern asks for an uppercase letter
  and at least one more identifier character. So a type named by one uppercase letter is
  never among them.
\<close>

theorem extracted_names_have_two_characters:
  "(\<forall>n\<in>set (get_defined_types content). 2 \<le> length n) \<and>
   (\<forall>n. declared_resource [str ''IDomainResource'', str ''IResource''] content = Some n
        \<longrightarrow> 2 \<le> length n) \<and>
   (\<forall>n\<in>set (get_dependencies_from_content content). 2 \<le> length n)"
proof (intro conjI ballI allI impI)
  fix n assume "n \<in> set (get_defined_types content)"
  then show "2 \<le> length n"
    unfolding get_defined_types_def by (rule findall_names [OF defined_type_re_ok])
next
  fix n assume "declared_resource [str ''IDomainResource'', str ''IResource''] content = Some n"
  then show "2 \<le> length n"
    by (rule declared_resource_names)
next
  fix n assume "n \<in> set (get_dependencies_from_content content)"
  from dependencies_from_field_types [OF this] obtain type_def where
    "n \<in> set (findall field_type_re type_def)" ..
  then show "2 \<le> length n"
    by (rule findall_names [OF field_type_re_ok])
qed

theorem extracted_names_have_two_characters_witness:
  "get_defined_types (str ''type A{b:B c:Cd}type Ef{g:H}'') = [str ''Ef''] \<and>
   declared_resource [str ''IDomainResource'', str ''IResource'']
     (str ''type A{b:B c:Cd}type Ef{g:H}'') = Some (str ''Ef'') \<and>
   get_dependencies_from_content (str ''type A{b:B c:Cd}type Ef{g:H}'')
     = [str ''Cd''] \<and>
   2 \<le> length (str ''Ef'') \<and> 2 \<le> length (str ''Cd'')"
proof -
  let ?c = "str ''type A{b:B c:Cd}type Ef{g:H}''"
  have a: "get_defined_types ?c = [str ''Ef'']"
    by code_simp
  have b: "declared_resource [str ''IDomainResource'', str ''IResource''] ?c = Some (str ''Ef'')"
    by code_simp
  have c: "get_dependencies_from_content ?c = [str ''Cd'']"
    by code_simp
  from extracted_names_have_two_characters [of ?c] a b c show ?thesis
    by simp
qed

end
